theory Spec2Isabelle
  imports Complex_Main "HOL-Library.Sublist" "HOL-Library.Multiset" "HOL-Library.Char_ord"
    "HOL-Library.List_Lexorder"
begin


section \<open>Constants and faults\<close>

text \<open>
  The macros of \<^verbatim>\<open>searchEngine.c\<close> and \<^verbatim>\<open>searchCLI.c\<close>.
\<close>

abbreviation ALPHABET_SIZE :: nat where "ALPHABET_SIZE \<equiv> 26"
abbreviation HASH_SIZE :: nat where "HASH_SIZE \<equiv> 1000"
abbreviation MAX_WORD_LEN :: nat where "MAX_WORD_LEN \<equiv> 100"
abbreviation MAX_RESULTS :: nat where "MAX_RESULTS \<equiv> 100"

text \<open>
  Behaviour the C standard leaves undefined is a value of the model:
  \<^item> \<open>UnterminatedString\<close>: a \<^verbatim>\<open>char\<close> buffer is read as a string although no NUL was
    written into it (after \<^verbatim>\<open>strncpy\<close> of a source that fills the whole count);
  \<^item> \<open>BufferOverflow\<close>: a write behind the \<^verbatim>\<open>MAX_WORD_LEN\<close> bytes of a prefix buffer;
  \<^item> \<open>IndexOutOfBounds\<close>: an access outside a \<^verbatim>\<open>calloc\<close>ed array;
  \<^item> \<open>DivisionByZero\<close>: a quotient with divisor 0.
\<close>

datatype fault = UnterminatedString | BufferOverflow | IndexOutOfBounds | DivisionByZero

section \<open>Data structures\<close>

text \<open>
  A C string is the list of its bytes before the terminating NUL. The linked lists
  (\<^verbatim>\<open>DocNode\<close>, \<^verbatim>\<open>HashEntry\<close> chains, \<^verbatim>\<open>Document\<close>) own their cells, so they are HOL
  lists with the head of the chain first. Trie nodes are shared between the trie and the
  hash table, so they live in an explicit store: a \<^verbatim>\<open>TrieNode *\<close> is an address
  (\<open>None\<close> is \<^verbatim>\<open>NULL\<close>), \<open>trie_nodes\<close> maps addresses to nodes and \<open>node_count\<close> is the
  number of nodes \<^verbatim>\<open>calloc\<close> has handed out so far (the next fresh address).
  \<^verbatim>\<open>int\<close> counters are unbounded integers: no run reaches \<^verbatim>\<open>INT_MAX\<close> tokens.
\<close>

record DocNode =
  doc_id :: int
  frequency :: int

record TrieNode =
  children :: "nat \<Rightarrow> nat option"
  is_end :: bool
  doc_list :: "DocNode list"
  total_freq :: int

record HashEntry =
  word :: string
  trie_node :: nat

record Document =
  id_doc :: int
  filename :: string
  word_count :: int

record SearchEngine =
  trie_nodes :: "nat \<Rightarrow> TrieNode"
  node_count :: nat
  trie_root :: nat
  hash_table :: "int \<Rightarrow> HashEntry list"
  documents :: "Document list"
  doc_count :: int

section \<open>Utility functions\<close>

text \<open>
  \<^verbatim>\<open>hash_func\<close> (djb2) on \<^verbatim>\<open>unsigned long\<close>, taken as 64 bits with the wrap-around
  written out. Every string the program hashes is normalized, so its bytes are below 128
  and the signedness of \<^verbatim>\<open>char\<close> plays no role.
\<close>

definition hash_func :: "string \<Rightarrow> int" where
  "hash_func str =
     fold (\<lambda>c hash. ((hash * 2 ^ 5) mod 2 ^ 64 + hash + of_char c) mod 2 ^ 64) str 5381
       mod int HASH_SIZE"

text \<open>\<^verbatim>\<open>isalpha\<close> and \<^verbatim>\<open>tolower\<close> in the C locale.\<close>

definition isalpha :: "char \<Rightarrow> bool" where
  "isalpha c = (let n = (of_char c :: nat) in (65 \<le> n \<and> n \<le> 90) \<or> (97 \<le> n \<and> n \<le> 122))"

definition tolower :: "char \<Rightarrow> char" where
  "tolower c = (let n = (of_char c :: nat) in if 65 \<le> n \<and> n \<le> 90 then char_of (n + 32) else c)"

definition normalize_word :: "string \<Rightarrow> string" where
  "normalize_word w = map tolower (filter isalpha w)"

text \<open>
  The two ways the program fills its \<^verbatim>\<open>char normalized[MAX_WORD_LEN]\<close> buffer.
  \<^verbatim>\<open>index_word\<close> copies at most \<^verbatim>\<open>MAX_WORD_LEN - 1\<close> bytes and then stores the NUL
  itself. The query functions call \<^verbatim>\<open>strncpy\<close> only: the buffer holds a string
  when the source is shorter than the count (then \<^verbatim>\<open>strncpy\<close> pads with NUL), and is
  unterminated otherwise.
\<close>

definition copy_word :: "string \<Rightarrow> string" where
  "copy_word w = take (MAX_WORD_LEN - 1) w"

definition copy_query :: "string \<Rightarrow> fault + string" where
  "copy_query w = (if length w < MAX_WORD_LEN - 1 then Inr w else Inl UnterminatedString)"

definition normalize_query :: "string \<Rightarrow> fault + string" where
  "normalize_query w =
     (case copy_query w of Inl f \<Rightarrow> Inl f | Inr b \<Rightarrow> Inr (normalize_word b))"

section \<open>Trie operations\<close>

definition blank_node :: TrieNode where
  "blank_node = \<lparr>children = (\<lambda>_. None), is_end = False, doc_list = [], total_freq = 0\<rparr>"

text \<open>
  \<^verbatim>\<open>add_doc_occurrence\<close>: the \<^verbatim>\<open>while\<close> loop looks for the document in the chain and
  increments its frequency; \<open>None\<close> says the loop fell through.
\<close>

fun bump_doc :: "DocNode list \<Rightarrow> int \<Rightarrow> DocNode list option" where
  "bump_doc [] d = None"
| "bump_doc (cur # rest) d =
     (if doc_id cur = d then Some (cur\<lparr>frequency := frequency cur + 1\<rparr> # rest)
      else (case bump_doc rest d of None \<Rightarrow> None | Some rest' \<Rightarrow> Some (cur # rest')))"

definition add_doc_occurrence :: "TrieNode \<Rightarrow> int \<Rightarrow> TrieNode" where
  "add_doc_occurrence node d =
     (case bump_doc (doc_list node) d of
        Some l \<Rightarrow> node\<lparr>doc_list := l, total_freq := total_freq node + 1\<rparr>
      | None \<Rightarrow> node\<lparr>doc_list := \<lparr>doc_id = d, frequency = 1\<rparr> # doc_list node,
                      total_freq := total_freq node + 1\<rparr>)"

text \<open>The index \<^verbatim>\<open>word[i] - 'a'\<close> and its range check.\<close>

definition char_idx :: "char \<Rightarrow> int" where
  "char_idx c = int (of_char c) - 97"

definition idx_ok :: "char \<Rightarrow> bool" where
  "idx_ok c = (\<not> (char_idx c < 0 \<or> char_idx c \<ge> int ALPHABET_SIZE))"

text \<open>
  The loop of \<^verbatim>\<open>trie_insert\<close>: a character outside a..z is skipped, a missing child is
  allocated at the next fresh address and linked.
\<close>

fun trie_insert_walk ::
  "(nat \<Rightarrow> TrieNode) \<Rightarrow> nat \<Rightarrow> nat \<Rightarrow> string \<Rightarrow> (nat \<Rightarrow> TrieNode) \<times> nat \<times> nat" where
  "trie_insert_walk h n cur [] = (h, n, cur)"
| "trie_insert_walk h n cur (c # cs) =
     (if \<not> idx_ok c then trie_insert_walk h n cur cs
      else (case children (h cur) (nat (char_idx c)) of
              None \<Rightarrow>
                (let h1 = h(n := blank_node);
                     h2 = h1(cur := (h1 cur)\<lparr>children := (children (h1 cur))(nat (char_idx c) \<mapsto> n)\<rparr>)
                 in trie_insert_walk h2 (Suc n) n cs)
            | Some nxt \<Rightarrow> trie_insert_walk h n nxt cs))"

definition trie_insert ::
  "(nat \<Rightarrow> TrieNode) \<Rightarrow> nat \<Rightarrow> nat \<Rightarrow> string \<Rightarrow> int \<Rightarrow> (nat \<Rightarrow> TrieNode) \<times> nat \<times> nat" where
  "trie_insert h n rt w d =
     (case trie_insert_walk h n rt w of
        (h1, n1, cur) \<Rightarrow>
          (let h2 = h1(cur := (h1 cur)\<lparr>is_end := True\<rparr>);
               h3 = h2(cur := add_doc_occurrence (h2 cur) d)
           in (h3, n1, cur)))"

text \<open>
  The descent shared by \<^verbatim>\<open>trie_search\<close>, \<^verbatim>\<open>trie_prefix_search\<close> and
  \<^verbatim>\<open>output_prefix_result\<close>: \<^verbatim>\<open>NULL\<close> at a character outside a..z or at a missing child.
\<close>

fun trie_descend :: "(nat \<Rightarrow> TrieNode) \<Rightarrow> nat \<Rightarrow> string \<Rightarrow> nat option" where
  "trie_descend h cur [] = Some cur"
| "trie_descend h cur (c # cs) =
     (if \<not> idx_ok c then None
      else (case children (h cur) (nat (char_idx c)) of
              None \<Rightarrow> None
            | Some nxt \<Rightarrow> trie_descend h nxt cs))"

definition trie_search :: "(nat \<Rightarrow> TrieNode) \<Rightarrow> nat \<Rightarrow> string \<Rightarrow> nat option" where
  "trie_search h rt w =
     (case trie_descend h rt w of
        None \<Rightarrow> None
      | Some cur \<Rightarrow> if is_end (h cur) then Some cur else None)"

section \<open>Hash table operations\<close>

fun chain_find :: "HashEntry list \<Rightarrow> string \<Rightarrow> nat option" where
  "chain_find [] w = None"
| "chain_find (cur # rest) w = (if word cur = w then Some (trie_node cur) else chain_find rest w)"

definition hash_search :: "SearchEngine \<Rightarrow> string \<Rightarrow> nat option" where
  "hash_search engine w = chain_find (hash_table engine (hash_func w)) w"

definition hash_insert :: "SearchEngine \<Rightarrow> string \<Rightarrow> nat \<Rightarrow> SearchEngine" where
  "hash_insert engine w node =
     (let idx = hash_func w in
      case chain_find (hash_table engine idx) w of
        Some _ \<Rightarrow> engine
      | None \<Rightarrow> engine\<lparr>hash_table := (hash_table engine)
                  (idx := \<lparr>word = w, trie_node = node\<rparr> # hash_table engine idx)\<rparr>)"

section \<open>Search engine operations\<close>

definition create_search_engine :: SearchEngine where
  "create_search_engine =
     \<lparr>trie_nodes = (\<lambda>_. blank_node), node_count = 1, trie_root = 0,
      hash_table = (\<lambda>_. []), documents = [], doc_count = 0\<rparr>"

definition add_document :: "SearchEngine \<Rightarrow> string \<Rightarrow> SearchEngine" where
  "add_document engine name =
     engine\<lparr>documents := \<lparr>id_doc = doc_count engine, filename = name, word_count = 0\<rparr>
                            # documents engine,
            doc_count := doc_count engine + 1\<rparr>"

fun get_document_in :: "Document list \<Rightarrow> int \<Rightarrow> Document option" where
  "get_document_in [] i = None"
| "get_document_in (cur # rest) i = (if id_doc cur = i then Some cur else get_document_in rest i)"

definition get_document :: "SearchEngine \<Rightarrow> int \<Rightarrow> Document option" where
  "get_document engine i = get_document_in (documents engine) i"

text \<open>
  \<^verbatim>\<open>if (doc) doc->word_count = word_count\<close> on the cell \<^verbatim>\<open>get_document\<close> returned: the
  first document of the chain with this id.
\<close>

fun set_word_count :: "Document list \<Rightarrow> int \<Rightarrow> int \<Rightarrow> Document list" where
  "set_word_count [] i wc = []"
| "set_word_count (cur # rest) i wc =
     (if id_doc cur = i then cur\<lparr>word_count := wc\<rparr> # rest
      else cur # set_word_count rest i wc)"

definition index_word :: "SearchEngine \<Rightarrow> string \<Rightarrow> int \<Rightarrow> SearchEngine" where
  "index_word engine w d =
     (let normalized = normalize_word (copy_word w) in
      if length normalized < 2 then engine
      else (case trie_insert (trie_nodes engine) (node_count engine) (trie_root engine) normalized d of
              (h, n, node) \<Rightarrow>
                hash_insert (engine\<lparr>trie_nodes := h, node_count := n\<rparr>) normalized node))"

text \<open>
  \<^verbatim>\<open>strtok\<close> with the delimiter set of \<^verbatim>\<open>index_text\<close>, called until it returns
  \<^verbatim>\<open>NULL\<close>: leading delimiters are skipped, the token runs up to the next delimiter.
\<close>

definition is_delim :: "char \<Rightarrow> bool" where
  "is_delim c = (c \<in> set [CHR 0x20, CHR 0x09, CHR 0x0A, CHR 0x0D, CHR ''.'', CHR '','',
     CHR '';'', CHR '':'', CHR ''!'', CHR ''?'', CHR 0x22, CHR 0x27, CHR ''('', CHR '')'',
     CHR ''['', CHR '']'', CHR ''{'', CHR ''}''])"

function strtok_all :: "string \<Rightarrow> string list" where
  "strtok_all s =
     (let s1 = dropWhile is_delim s in
      if s1 = [] then []
      else takeWhile (\<lambda>c. \<not> is_delim c) s1 # strtok_all (dropWhile (\<lambda>c. \<not> is_delim c) s1))"
  by pat_completeness auto
termination
proof (relation "measure length")
  show "wf (measure length)" by simp
next
  fix s s1 :: string
  assume s1: "s1 = dropWhile is_delim s" and ne: "s1 \<noteq> []"
  obtain c cs where c: "s1 = c # cs" using ne by (cases s1) simp_all
  have "dropWhile is_delim s \<noteq> []" using ne s1 by simp
  then have "\<not> is_delim (hd (dropWhile is_delim s))" by (rule hd_dropWhile)
  then have "\<not> is_delim c" using s1 c by (metis list.sel(1))
  then have "length (dropWhile (\<lambda>c. \<not> is_delim c) s1) \<le> length cs"
    using c by (simp add: length_dropWhile_le)
  moreover have "length s1 \<le> length s" using s1 by (simp add: length_dropWhile_le)
  ultimately show "(dropWhile (\<lambda>c. \<not> is_delim c) s1, s) \<in> measure length"
    using c by simp
qed

declare strtok_all.simps [simp del]

text \<open>The \<^verbatim>\<open>while (token)\<close> loop of \<^verbatim>\<open>index_text\<close> with its counter.\<close>

fun index_tokens :: "SearchEngine \<Rightarrow> string list \<Rightarrow> int \<Rightarrow> int \<Rightarrow> SearchEngine \<times> int" where
  "index_tokens engine [] d wc = (engine, wc)"
| "index_tokens engine (token # rest) d wc = index_tokens (index_word engine token d) rest d (wc + 1)"

definition index_text :: "SearchEngine \<Rightarrow> string \<Rightarrow> string \<Rightarrow> SearchEngine \<times> int" where
  "index_text engine name text =
     (let e1 = add_document engine name;
          d = doc_count e1 - 1
      in case index_tokens e1 (strtok_all text) d 0 of
           (e2, wc) \<Rightarrow> (e2\<lparr>documents := set_word_count (documents e2) d wc\<rparr>, d))"

section \<open>Query functions\<close>

text \<open>
  The query functions print their answer; the model returns what is printed as a value.
  \<open>doc_filename\<close> is \<^verbatim>\<open>doc_info ? doc_info->filename : fallback\<close>.
\<close>

definition doc_filename :: "SearchEngine \<Rightarrow> int \<Rightarrow> string \<Rightarrow> string" where
  "doc_filename engine i fallback =
     (case get_document engine i of None \<Rightarrow> fallback | Some doc_info \<Rightarrow> filename doc_info)"

record FreqResult =
  fr_found :: bool
  fr_total_freq :: int
  fr_documents :: "(int \<times> string \<times> int) list"

text \<open>\<^verbatim>\<open>output_freq_result\<close> of \<^verbatim>\<open>searchCLI.c\<close>: rows are (doc_id, filename, frequency).\<close>

definition output_freq_result :: "SearchEngine \<Rightarrow> string \<Rightarrow> fault + FreqResult" where
  "output_freq_result engine w =
     (case normalize_query w of
        Inl f \<Rightarrow> Inl f
      | Inr normalized \<Rightarrow>
          (case hash_search engine normalized of
             None \<Rightarrow> Inr \<lparr>fr_found = False, fr_total_freq = 0, fr_documents = []\<rparr>
           | Some node \<Rightarrow>
               Inr \<lparr>fr_found = True,
                    fr_total_freq = total_freq (trie_nodes engine node),
                    fr_documents =
                      map (\<lambda>doc. (doc_id doc, doc_filename engine (doc_id doc) ''unknown'', frequency doc))
                        (doc_list (trie_nodes engine node))\<rparr>))"

record SearchResult =
  sr_found :: bool
  sr_total_freq :: int
  sr_results :: "(int \<times> string \<times> int \<times> int) list"

text \<open>
  \<^verbatim>\<open>output_search_result\<close> of \<^verbatim>\<open>searchCLI.c\<close>: rows are (doc_id, filename, frequency,
  word_count); the not-found answer has no \<^verbatim>\<open>total_freq\<close> key, here 0.
\<close>

definition output_search_result :: "SearchEngine \<Rightarrow> string \<Rightarrow> fault + SearchResult" where
  "output_search_result engine keyword =
     (case normalize_query keyword of
        Inl f \<Rightarrow> Inl f
      | Inr normalized \<Rightarrow>
          (case hash_search engine normalized of
             None \<Rightarrow> Inr \<lparr>sr_found = False, sr_total_freq = 0, sr_results = []\<rparr>
           | Some node \<Rightarrow>
               Inr \<lparr>sr_found = True,
                    sr_total_freq = total_freq (trie_nodes engine node),
                    sr_results =
                      map (\<lambda>doc. (doc_id doc, doc_filename engine (doc_id doc) ''unknown'', frequency doc,
                                  (case get_document engine (doc_id doc) of
                                     None \<Rightarrow> 0 | Some doc_info \<Rightarrow> word_count doc_info)))
                        (doc_list (trie_nodes engine node))\<rparr>))"

text \<open>
  \<^verbatim>\<open>show_word_frequency\<close> of \<^verbatim>\<open>searchEngine.c\<close>. The term frequency
  \<^verbatim>\<open>doc_info ? (float)doc->frequency / doc_info->word_count : 0\<close> is the exact quotient
  (the rounding to \<^verbatim>\<open>float\<close> is left out); a zero divisor is a fault of the model.
  Rows are (filename, frequency, tf).
\<close>

definition term_frequency :: "SearchEngine \<Rightarrow> DocNode \<Rightarrow> fault + rat" where
  "term_frequency engine doc =
     (case get_document engine (doc_id doc) of
        None \<Rightarrow> Inr 0
      | Some doc_info \<Rightarrow>
          if word_count doc_info = 0 then Inl DivisionByZero
          else Inr (of_int (frequency doc) / of_int (word_count doc_info)))"

fun frequency_rows :: "SearchEngine \<Rightarrow> DocNode list \<Rightarrow> fault + (string \<times> int \<times> rat) list" where
  "frequency_rows engine [] = Inr []"
| "frequency_rows engine (doc # rest) =
     (case term_frequency engine doc of
        Inl f \<Rightarrow> Inl f
      | Inr tf \<Rightarrow>
          (case frequency_rows engine rest of
             Inl f \<Rightarrow> Inl f
           | Inr rows \<Rightarrow> Inr ((doc_filename engine (doc_id doc) ''Unknown'', frequency doc, tf) # rows)))"

datatype FreqReport = WordNotFound | Breakdown int "(string \<times> int \<times> rat) list"

definition show_word_frequency :: "SearchEngine \<Rightarrow> string \<Rightarrow> fault + FreqReport" where
  "show_word_frequency engine w =
     (case normalize_query w of
        Inl f \<Rightarrow> Inl f
      | Inr normalized \<Rightarrow>
          (case hash_search engine normalized of
             None \<Rightarrow> Inr WordNotFound
           | Some node \<Rightarrow>
               (case frequency_rows engine (doc_list (trie_nodes engine node)) of
                  Inl f \<Rightarrow> Inl f
                | Inr rows \<Rightarrow> Inr (Breakdown (total_freq (trie_nodes engine node)) rows))))"

subsection \<open>Multi-keyword search\<close>

text \<open>
  \<^verbatim>\<open>search_multi\<close> of \<^verbatim>\<open>searchEngine.c\<close>. \<^verbatim>\<open>doc_scores\<close> and \<^verbatim>\<open>doc_matches\<close> are
  arrays of \<^verbatim>\<open>doc_count\<close> zeros; the inner \<^verbatim>\<open>while (doc)\<close> loop writes them at
  \<^verbatim>\<open>doc->doc_id\<close>.
\<close>

fun accumulate_docs :: "DocNode list \<Rightarrow> int list \<Rightarrow> int list \<Rightarrow> fault + (int list \<times> int list)" where
  "accumulate_docs [] doc_scores doc_matches = Inr (doc_scores, doc_matches)"
| "accumulate_docs (doc # rest) doc_scores doc_matches =
     (if 0 \<le> doc_id doc \<and> nat (doc_id doc) < length doc_matches \<and> nat (doc_id doc) < length doc_scores
      then accumulate_docs rest
             (doc_scores[nat (doc_id doc) := doc_scores ! nat (doc_id doc) + frequency doc])
             (doc_matches[nat (doc_id doc) := doc_matches ! nat (doc_id doc) + 1])
      else Inl IndexOutOfBounds)"

text \<open>
  The answer: the early return at a keyword without hash entry (with the normalized
  keyword the message names), or the rows (filename, id, score) of the display loop, which
  is empty when "No documents contain all keywords." is printed.
\<close>

datatype MultiResult = KeywordNotFound string | Documents "(string \<times> int \<times> int) list"

definition display_matches :: "SearchEngine \<Rightarrow> nat \<Rightarrow> int list \<Rightarrow> int list \<Rightarrow> (string \<times> int \<times> int) list" where
  "display_matches engine cnt doc_scores doc_matches =
     map (\<lambda>i. (doc_filename engine (int i) ''Unknown'', int i, doc_scores ! i))
       (filter (\<lambda>i. doc_matches ! i = int cnt) [0..<nat (doc_count engine)])"

fun search_multi_loop ::
  "SearchEngine \<Rightarrow> nat \<Rightarrow> string list \<Rightarrow> int list \<Rightarrow> int list \<Rightarrow> fault + MultiResult" where
  "search_multi_loop engine cnt [] doc_scores doc_matches =
     Inr (Documents (display_matches engine cnt doc_scores doc_matches))"
| "search_multi_loop engine cnt (keyword # rest) doc_scores doc_matches =
     (case normalize_query keyword of
        Inl f \<Rightarrow> Inl f
      | Inr normalized \<Rightarrow>
          (case hash_search engine normalized of
             None \<Rightarrow> Inr (KeywordNotFound normalized)
           | Some node \<Rightarrow>
               (case accumulate_docs (doc_list (trie_nodes engine node)) doc_scores doc_matches of
                  Inl f \<Rightarrow> Inl f
                | Inr (doc_scores', doc_matches') \<Rightarrow>
                    search_multi_loop engine cnt rest doc_scores' doc_matches')))"

definition search_multi :: "SearchEngine \<Rightarrow> string list \<Rightarrow> fault + MultiResult" where
  "search_multi engine keywords =
     search_multi_loop engine (length keywords) keywords
       (replicate (nat (doc_count engine)) 0) (replicate (nat (doc_count engine)) 0)"

text \<open>The rows a multi-keyword answer reports: none after the early return.\<close>

fun result_rows :: "MultiResult \<Rightarrow> (string \<times> int \<times> int) list" where
  "result_rows (KeywordNotFound w) = []"
| "result_rows (Documents rows) = rows"

subsection \<open>Prefix search\<close>

text \<open>
  The \<^verbatim>\<open>for\<close> loop over the 26 children, shared by \<^verbatim>\<open>trie_prefix_helper\<close> and
  \<^verbatim>\<open>collect_prefix_words\<close>: \<open>continue\<close> is the extra loop condition on the results,
  \<open>visit i c\<close> the recursive call on child \<open>c\<close> at index \<open>i\<close>.
\<close>

fun scan_children ::
  "(nat \<Rightarrow> nat \<Rightarrow> 'r \<Rightarrow> fault + 'r) \<Rightarrow> ('r \<Rightarrow> bool) \<Rightarrow> (nat \<Rightarrow> nat option) \<Rightarrow> nat list \<Rightarrow> 'r \<Rightarrow> fault + 'r" where
  "scan_children visit continue ch [] res = Inr res"
| "scan_children visit continue ch (i # js) res =
     (if continue res then
        (case ch i of
           None \<Rightarrow> scan_children visit continue ch js res
         | Some c \<Rightarrow>
             (case visit i c res of
                Inl f \<Rightarrow> Inl f
              | Inr res' \<Rightarrow> scan_children visit continue ch js res'))
      else Inr res)"

definition has_child :: "TrieNode \<Rightarrow> bool" where
  "has_child node = list_ex (\<lambda>i. children node i \<noteq> None) [0..<ALPHABET_SIZE]"

text \<open>
  \<^verbatim>\<open>collect_prefix_words\<close> of \<^verbatim>\<open>searchCLI.c\<close>. The results structure is the list of
  (word, frequency) pairs collected so far, \<^verbatim>\<open>results->count\<close> its length. The buffer
  \<^verbatim>\<open>prefix\<close> has \<^verbatim>\<open>MAX_WORD_LEN\<close> bytes and \<^verbatim>\<open>len\<close> is the length of the prefix in
  it; the first argument is the room left, \<^verbatim>\<open>MAX_WORD_LEN - len\<close>. With no room left
  the writes \<^verbatim>\<open>prefix[len] = '\0'\<close> and \<^verbatim>\<open>prefix[len] = 'a' + i\<close> leave the buffer.
\<close>

primrec collect_prefix_words ::
  "nat \<Rightarrow> (nat \<Rightarrow> TrieNode) \<Rightarrow> nat \<Rightarrow> string \<Rightarrow> (string \<times> int) list \<Rightarrow> fault + (string \<times> int) list" where
  "collect_prefix_words 0 h node pfx results =
     (if length results \<ge> MAX_RESULTS then Inr results
      else if is_end (h node) \<or> has_child (h node) then Inl BufferOverflow
      else Inr results)"
| "collect_prefix_words (Suc room) h node pfx results =
     (if length results \<ge> MAX_RESULTS then Inr results
      else scan_children
             (\<lambda>i c res. collect_prefix_words room h c (pfx @ [char_of (97 + i)]) res)
             (\<lambda>res. length res < MAX_RESULTS) (children (h node)) [0..<ALPHABET_SIZE]
             (if is_end (h node) then results @ [(pfx, total_freq (h node))] else results))"

record PrefixResult =
  pr_found :: bool
  pr_words :: "(string \<times> int) list"

definition output_prefix_result :: "SearchEngine \<Rightarrow> string \<Rightarrow> fault + PrefixResult" where
  "output_prefix_result engine pfx =
     (case normalize_query pfx of
        Inl f \<Rightarrow> Inl f
      | Inr normalized \<Rightarrow>
          (case trie_descend (trie_nodes engine) (trie_root engine) normalized of
             None \<Rightarrow> Inr \<lparr>pr_found = False, pr_words = []\<rparr>
           | Some cur \<Rightarrow>
               (case collect_prefix_words (MAX_WORD_LEN - length normalized) (trie_nodes engine) cur
                       normalized [] of
                  Inl f \<Rightarrow> Inl f
                | Inr results \<Rightarrow> Inr \<lparr>pr_found = True, pr_words = results\<rparr>)))"

text \<open>
  \<^verbatim>\<open>trie_prefix_helper\<close> of \<^verbatim>\<open>searchEngine.c\<close>: the same traversal without a cap; the
  printed lines are collected in \<open>out\<close>.
\<close>

primrec trie_prefix_helper ::
  "nat \<Rightarrow> (nat \<Rightarrow> TrieNode) \<Rightarrow> nat \<Rightarrow> string \<Rightarrow> (string \<times> int) list \<Rightarrow> fault + (string \<times> int) list" where
  "trie_prefix_helper 0 h node pfx out =
     (if is_end (h node) \<or> has_child (h node) then Inl BufferOverflow else Inr out)"
| "trie_prefix_helper (Suc room) h node pfx out =
     scan_children
       (\<lambda>i c res. trie_prefix_helper room h c (pfx @ [char_of (97 + i)]) res)
       (\<lambda>res. True) (children (h node)) [0..<ALPHABET_SIZE]
       (if is_end (h node) then out @ [(pfx, total_freq (h node))] else out)"

definition search_prefix :: "SearchEngine \<Rightarrow> string \<Rightarrow> fault + PrefixResult" where
  "search_prefix engine pfx =
     (case normalize_query pfx of
        Inl f \<Rightarrow> Inl f
      | Inr normalized \<Rightarrow>
          (case trie_descend (trie_nodes engine) (trie_root engine) normalized of
             None \<Rightarrow> Inr \<lparr>pr_found = False, pr_words = []\<rparr>
           | Some cur \<Rightarrow>
               (case trie_prefix_helper (MAX_WORD_LEN - length normalized) (trie_nodes engine) cur
                       normalized [] of
                  Inl f \<Rightarrow> Inl f
                | Inr out \<Rightarrow> Inr \<lparr>pr_found = True, pr_words = out\<rparr>)))"

section \<open>Reachable engine states\<close>

text \<open>
  The states a session can be in: the fresh engine, and any state after a further
  \<^verbatim>\<open>index_text\<close>. Queries do not change the engine.
\<close>

inductive reachable :: "SearchEngine \<Rightarrow> bool" where
  fresh: "reachable create_search_engine"
| indexed: "reachable engine \<Longrightarrow> reachable (fst (index_text engine name text))"

section \<open>Invariants of reachable engines\<close>

text \<open>Documents carry the ids 0, 1, ... in the order they were added, newest first.\<close>

definition registry_ok :: "SearchEngine \<Rightarrow> bool" where
  "registry_ok e \<longleftrightarrow>
     0 \<le> doc_count e \<and> map id_doc (documents e) = rev (map int [0..<nat (doc_count e)])"

text \<open>
  The index of a character as a natural number, and the path of a word: the child indices
  a descent along it takes.
\<close>

definition idxn :: "char \<Rightarrow> nat" where
  "idxn c = nat (char_idx c)"

text \<open>
  The trie is a tree: every allocated node has one path from the root. \<open>path\<close> is a
  ghost labelling of the nodes with their paths; every link leads from a node to a node
  whose path is one index longer.
\<close>

definition edges_ok :: "(nat \<Rightarrow> TrieNode) \<Rightarrow> nat \<Rightarrow> nat \<Rightarrow> (nat \<Rightarrow> nat list) \<Rightarrow> bool" where
  "edges_ok h n r path \<longleftrightarrow>
     r < n \<and> path r = [] \<and>
     (\<forall>a i b. a < n \<longrightarrow> children (h a) i = Some b \<longrightarrow>
        i < ALPHABET_SIZE \<and> b < n \<and> path b = path a @ [i])"

text \<open>
  What an insertion may do to the store: allocate blank nodes and set links that were
  \<^verbatim>\<open>NULL\<close> to fresh nodes. The payload of the old nodes and the old links stay.
\<close>

definition extends :: "(nat \<Rightarrow> TrieNode) \<Rightarrow> nat \<Rightarrow> (nat \<Rightarrow> TrieNode) \<Rightarrow> nat \<Rightarrow> bool" where
  "extends h n h' n' \<longleftrightarrow>
     n \<le> n' \<and>
     (\<forall>a<n. is_end (h' a) = is_end (h a) \<and> doc_list (h' a) = doc_list (h a) \<and>
            total_freq (h' a) = total_freq (h a)) \<and>
     (\<forall>a i b. a < n \<longrightarrow> children (h a) i = Some b \<longrightarrow> children (h' a) i = Some b) \<and>
     (\<forall>a i b. a < n' \<longrightarrow> children (h' a) i = Some b \<longrightarrow> b < n \<longrightarrow>
        a < n \<and> children (h a) i = Some b) \<and>
     (\<forall>a. n \<le> a \<longrightarrow> a < n' \<longrightarrow>
        \<not> is_end (h' a) \<and> doc_list (h' a) = [] \<and> total_freq (h' a) = 0)"

text \<open>
  The payload invariant of a node: the cached total is the sum of the frequencies, a
  document occurs at most once in the chain, with an id below \<open>dc\<close> and a positive
  frequency, and the node is terminal exactly when its chain is not empty.
\<close>

definition node_ok :: "int \<Rightarrow> TrieNode \<Rightarrow> bool" where
  "node_ok dc nd \<longleftrightarrow>
     total_freq nd = sum_list (map frequency (doc_list nd)) \<and>
     distinct (map doc_id (doc_list nd)) \<and>
     (\<forall>dn\<in>set (doc_list nd). 0 \<le> doc_id dn \<and> doc_id dn < dc \<and> 1 \<le> frequency dn) \<and>
     (is_end nd \<longleftrightarrow> doc_list nd \<noteq> [])"

definition trie_ok :: "SearchEngine \<Rightarrow> bool" where
  "trie_ok e \<longleftrightarrow>
     (\<exists>path. edges_ok (trie_nodes e) (node_count e) (trie_root e) path \<and>
             (\<forall>a<node_count e. length (path a) < MAX_WORD_LEN))"

definition engine_ok :: "SearchEngine \<Rightarrow> bool" where
  "engine_ok e \<longleftrightarrow>
     registry_ok e \<and> trie_ok e \<and>
     (\<forall>a<node_count e. node_ok (doc_count e) (trie_nodes e a)) \<and>
     (\<forall>w. hash_search e w = trie_search (trie_nodes e) (trie_root e) w)"

text \<open>The occurrence list the hash table leads to for a word; empty for an unknown word.\<close>

definition occurrences :: "SearchEngine \<Rightarrow> string \<Rightarrow> DocNode list" where
  "occurrences e w =
     (case hash_search e w of None \<Rightarrow> [] | Some a \<Rightarrow> doc_list (trie_nodes e a))"

text \<open>\<^verbatim>\<open>add_doc_occurrence\<close> seen on the chain alone.\<close>

definition add_occ :: "int \<Rightarrow> DocNode list \<Rightarrow> DocNode list" where
  "add_occ d l = (case bump_doc l d of Some l' \<Rightarrow> l' | None \<Rightarrow> \<lparr>doc_id = d, frequency = 1\<rparr> # l)"

text \<open>The part of a node an insertion elsewhere must not touch.\<close>

definition payload :: "TrieNode \<Rightarrow> bool \<times> DocNode list \<times> int" where
  "payload nd = (is_end nd, doc_list nd, total_freq nd)"

text \<open>
  The words \<^verbatim>\<open>index_text\<close> inserts for a list of tokens, in order: the normalized tokens
  of at least 2 characters.
\<close>

definition doc_words :: "string list \<Rightarrow> string list" where
  "doc_words toks = filter (\<lambda>w. 2 \<le> length w) (map (\<lambda>t. normalize_word (copy_word t)) toks)"

text \<open>
  Between two \<^verbatim>\<open>index_text\<close> calls, a frequency in an occurrence chain never exceeds the
  \<open>word_count\<close> of its document.
\<close>

definition counts_ok :: "SearchEngine \<Rightarrow> bool" where
  "counts_ok e \<longleftrightarrow>
     (\<forall>w. \<forall>dn\<in>set (occurrences e w).
        \<exists>doc. get_document e (doc_id dn) = Some doc \<and> frequency dn \<le> word_count doc)"

text \<open>
  The vocabulary of the multi-keyword claims: the occurrence chain the lookup of a keyword
  leads to, the frequency and the number of entries of a document in a chain, and the sum
  of a document's frequencies over the keywords.
\<close>

definition keyword_docs :: "SearchEngine \<Rightarrow> string \<Rightarrow> DocNode list" where
  "keyword_docs e w = (case normalize_query w of Inl f \<Rightarrow> [] | Inr k \<Rightarrow> occurrences e k)"

definition doc_frequency :: "DocNode list \<Rightarrow> int \<Rightarrow> int" where
  "doc_frequency l i = sum_list (map frequency (filter (\<lambda>dn. doc_id dn = i) l))"

definition doc_hits :: "DocNode list \<Rightarrow> int \<Rightarrow> int" where
  "doc_hits l i = int (length (filter (\<lambda>dn. doc_id dn = i) l))"

definition combined_score :: "SearchEngine \<Rightarrow> string list \<Rightarrow> int \<Rightarrow> int" where
  "combined_score e ws i = sum_list (map (\<lambda>w. doc_frequency (keyword_docs e w) i) ws)"

definition match_count :: "SearchEngine \<Rightarrow> string list \<Rightarrow> int \<Rightarrow> int" where
  "match_count e ws i = sum_list (map (\<lambda>w. doc_hits (keyword_docs e w) i) ws)"

text \<open>The character \<^verbatim>\<open>'a' + i\<close> the traversals write for child \<open>i\<close>.\<close>

definition index_char :: "nat \<Rightarrow> char" where
  "index_char i = char_of (97 + i)"

text \<open>
  The words below a node in depth-first pre-order with the children in ascending order,
  down to \<open>room\<close> levels: the listing both traversals follow.
\<close>

primrec subtree_words :: "nat \<Rightarrow> (nat \<Rightarrow> TrieNode) \<Rightarrow> nat \<Rightarrow> string \<Rightarrow> (string \<times> int) list" where
  "subtree_words 0 h node pfx = []"
| "subtree_words (Suc room) h node pfx =
     (if is_end (h node) then [(pfx, total_freq (h node))] else []) @
     concat (map (\<lambda>i. case children (h node) i of
                          None \<Rightarrow> []
                        | Some c \<Rightarrow> subtree_words room h c (pfx @ [index_char i]))
               [0..<ALPHABET_SIZE])"

text \<open>The buffer has room for every word below the node.\<close>

definition fits :: "nat \<Rightarrow> (nat \<Rightarrow> TrieNode) \<Rightarrow> nat \<Rightarrow> bool" where
  "fits room h a \<longleftrightarrow> (\<forall>s b. trie_descend h a s = Some b \<longrightarrow> length s < room)"

section \<open>Frame properties of indexing\<close>

text \<open>What \<^verbatim>\<open>index_word\<close> and the token loop leave alone: the document registry.\<close>

lemma hash_insert_fields [simp]:
  "documents (hash_insert e w a) = documents e"
  "doc_count (hash_insert e w a) = doc_count e"
  "trie_nodes (hash_insert e w a) = trie_nodes e"
  "node_count (hash_insert e w a) = node_count e"
  "trie_root (hash_insert e w a) = trie_root e"
  by (simp_all add: hash_insert_def Let_def split: option.split)

lemma index_word_registry [simp]:
  "documents (index_word e w d) = documents e"
  "doc_count (index_word e w d) = doc_count e"
  "trie_root (index_word e w d) = trie_root e"
  by (simp_all add: index_word_def Let_def split: prod.split)

lemma index_tokens_registry [simp]:
  "documents (fst (index_tokens e toks d wc)) = documents e"
  "doc_count (fst (index_tokens e toks d wc)) = doc_count e"
  "trie_root (fst (index_tokens e toks d wc)) = trie_root e"
  by (induction toks arbitrary: e wc) simp_all

lemma index_tokens_count: "snd (index_tokens e toks d wc) = wc + int (length toks)"
  by (induction toks arbitrary: e wc) simp_all

lemma index_tokens_counter_free:
  "fst (index_tokens e toks d wc) = fst (index_tokens e toks d wc')"
  by (induction toks arbitrary: e wc wc') simp_all

lemma index_text_fst:
  "fst (index_text e name text) =
     (fst (index_tokens (add_document e name) (strtok_all text) (doc_count e) 0))
       \<lparr>documents := set_word_count (documents (add_document e name)) (doc_count e)
                       (int (length (strtok_all text)))\<rparr>"
proof -
  obtain e2 wc where iw: "index_tokens (add_document e name) (strtok_all text) (doc_count e) 0 = (e2, wc)"
    by (cases "index_tokens (add_document e name) (strtok_all text) (doc_count e) 0") simp
  have wc: "wc = int (length (strtok_all text))"
    using index_tokens_count [of "add_document e name" "strtok_all text" "doc_count e" 0] iw by simp
  have docs: "documents e2 = documents (add_document e name)"
    using index_tokens_registry(1) [of "add_document e name" "strtok_all text" "doc_count e" 0] iw
    by simp
  have d: "doc_count (add_document e name) - 1 = doc_count e"
    by (simp add: add_document_def)
  show ?thesis
    by (simp add: index_text_def Let_def d iw wc docs)
qed

lemma index_text_snd: "snd (index_text e name text) = doc_count e"
  by (simp add: index_text_def Let_def add_document_def split: prod.split)

subsection \<open>Short tokens\<close>

lemma index_word_short:
  "length (normalize_word (copy_word tok)) < 2 \<Longrightarrow> index_word e tok d = e"
  by (simp add: index_word_def Let_def)

lemma index_tokens_skip_short:
  "fst (index_tokens e toks d wc) =
   fst (index_tokens e (filter (\<lambda>t. \<not> length (normalize_word (copy_word t)) < 2) toks) d wc)"
proof (induction toks arbitrary: e wc)
  case Nil
  show ?case by simp
next
  case (Cons t toks)
  show ?case
  proof (cases "length (normalize_word (copy_word t)) < 2")
    case True
    then have "index_word e t d = e" by (rule index_word_short)
    then show ?thesis
      using True Cons.IH [of e "wc + 1"] index_tokens_counter_free [of e _ d "wc + 1" wc]
      by simp
  next
    case False
    then show ?thesis using Cons.IH [of "index_word e t d" "wc + 1"] by simp
  qed
qed

lemma get_document_index_text:
  "get_document (fst (index_text e name text)) (doc_count e) =
     Some \<lparr>id_doc = doc_count e, filename = name, word_count = int (length (strtok_all text))\<rparr>"
  by (simp add: index_text_fst get_document_def add_document_def)

section \<open>The document registry\<close>

lemma set_word_count_ids [simp]: "map id_doc (set_word_count ds i wc) = map id_doc ds"
  by (induction ds) simp_all

lemma registry_ok_create: "registry_ok create_search_engine"
  by (simp add: registry_ok_def create_search_engine_def)

lemma registry_ok_add_document:
  assumes "registry_ok e"
  shows "registry_ok (add_document e name)"
proof -
  have nn: "0 \<le> doc_count e" using assms by (simp add: registry_ok_def)
  then have "nat (doc_count e + 1) = Suc (nat (doc_count e))" by simp
  then show ?thesis
    using assms nn by (simp add: registry_ok_def add_document_def)
qed

lemma registry_ok_cong:
  "registry_ok e \<Longrightarrow> doc_count e' = doc_count e \<Longrightarrow> map id_doc (documents e') = map id_doc (documents e)
     \<Longrightarrow> registry_ok e'"
  by (simp add: registry_ok_def)

lemma registry_ok_index_text:
  assumes "registry_ok e"
  shows "registry_ok (fst (index_text e name text))"
proof (rule registry_ok_cong [OF registry_ok_add_document [OF assms, of name]])
  show "doc_count (fst (index_text e name text)) = doc_count (add_document e name)"
    by (simp add: index_text_fst)
  show "map id_doc (documents (fst (index_text e name text))) =
        map id_doc (documents (add_document e name))"
    by (simp add: index_text_fst)
qed

lemma reachable_registry_ok: "reachable e \<Longrightarrow> registry_ok e"
  by (induction rule: reachable.induct) (simp_all add: registry_ok_create registry_ok_index_text)

lemma get_document_in_ids:
  "map id_doc ds = rev (map int [0..<n]) \<Longrightarrow> i < n \<Longrightarrow> get_document_in ds (int i) = Some (rev ds ! i)"
proof (induction ds arbitrary: n)
  case Nil
  then show ?case by simp
next
  case (Cons d ds)
  then obtain m where n: "n = Suc m" by (cases n) auto
  from Cons.prems(1) n have hd: "id_doc d = int m" and tl: "map id_doc ds = rev (map int [0..<m])"
    by simp_all
  have len: "length ds = m" using tl by (metis length_map length_rev length_upt minus_nat.diff_0)
  show ?case
  proof (cases "i = m")
    case True
    then show ?thesis using hd len by (simp add: nth_append)
  next
    case False
    then have im: "i < m" using Cons.prems(2) n by simp
    then show ?thesis using Cons.IH [OF tl im] hd len by (simp add: nth_append)
  qed
qed

lemma registry_get_document:
  assumes "registry_ok e" and "i < nat (doc_count e)"
  shows "get_document e (int i) = Some (rev (documents e) ! i)"
  using assms get_document_in_ids [of "documents e" "nat (doc_count e)" i]
  by (simp add: registry_ok_def get_document_def)

lemma registry_length: "registry_ok e \<Longrightarrow> length (documents e) = nat (doc_count e)"
  by (metis registry_ok_def length_map length_rev length_upt minus_nat.diff_0)

lemma registry_id: 
  assumes "registry_ok e" and "i < nat (doc_count e)"
  shows "id_doc (rev (documents e) ! i) = int i"
proof -
  have "map id_doc (rev (documents e)) = map int [0..<nat (doc_count e)]"
  proof -
    have "map id_doc (rev (documents e)) = rev (map id_doc (documents e))" by (simp add: rev_map)
    also have "\<dots> = rev (rev (map int [0..<nat (doc_count e)]))"
      using assms(1) by (simp only: registry_ok_def)
    finally show ?thesis by simp
  qed
  then have "map id_doc (rev (documents e)) ! i = map int [0..<nat (doc_count e)] ! i" by simp
  then show ?thesis using assms registry_length [OF assms(1)] by simp
qed

section \<open>The trie as a tree in the store\<close>

lemma extends_refl: "extends h n h n"
  unfolding extends_def by simp

lemma extends_le: "extends h n h' n' \<Longrightarrow> n \<le> n'"
  unfolding extends_def by blast

lemma extends_payload:
  "extends h n h' n' \<Longrightarrow> a < n \<Longrightarrow>
     is_end (h' a) = is_end (h a) \<and> doc_list (h' a) = doc_list (h a) \<and>
     total_freq (h' a) = total_freq (h a)"
  unfolding extends_def by blast

lemma extends_edge:
  "extends h n h' n' \<Longrightarrow> a < n \<Longrightarrow> children (h a) i = Some b \<Longrightarrow> children (h' a) i = Some b"
  unfolding extends_def by blast

lemma extends_edge_back:
  "extends h n h' n' \<Longrightarrow> a < n' \<Longrightarrow> children (h' a) i = Some b \<Longrightarrow> b < n \<Longrightarrow>
     a < n \<and> children (h a) i = Some b"
  unfolding extends_def by blast

lemma extends_new:
  "extends h n h' n' \<Longrightarrow> n \<le> a \<Longrightarrow> a < n' \<Longrightarrow>
     \<not> is_end (h' a) \<and> doc_list (h' a) = [] \<and> total_freq (h' a) = 0"
  unfolding extends_def by blast

lemma extendsI:
  assumes "n \<le> n'"
    and "\<And>a. a < n \<Longrightarrow> is_end (h' a) = is_end (h a) \<and> doc_list (h' a) = doc_list (h a) \<and>
            total_freq (h' a) = total_freq (h a)"
    and "\<And>a i b. a < n \<Longrightarrow> children (h a) i = Some b \<Longrightarrow> children (h' a) i = Some b"
    and "\<And>a i b. a < n' \<Longrightarrow> children (h' a) i = Some b \<Longrightarrow> b < n \<Longrightarrow>
        a < n \<and> children (h a) i = Some b"
    and "\<And>a. n \<le> a \<Longrightarrow> a < n' \<Longrightarrow>
        \<not> is_end (h' a) \<and> doc_list (h' a) = [] \<and> total_freq (h' a) = 0"
  shows "extends h n h' n'"
  unfolding extends_def using assms by blast

lemma extends_trans:
  assumes 1: "extends h n h1 n1" and 2: "extends h1 n1 h2 n2"
  shows "extends h n h2 n2"
proof (rule extendsI)
  show "n \<le> n2" using extends_le [OF 1] extends_le [OF 2] by simp
next
  fix a assume a: "a < n"
  then have "a < n1" using extends_le [OF 1] by simp
  then show "is_end (h2 a) = is_end (h a) \<and> doc_list (h2 a) = doc_list (h a) \<and>
            total_freq (h2 a) = total_freq (h a)"
    using extends_payload [OF 1 a] extends_payload [OF 2, of a] by simp
next
  fix a i b assume a: "a < n" and e: "children (h a) i = Some b"
  have "a < n1" using a extends_le [OF 1] by simp
  then show "children (h2 a) i = Some b"
    using extends_edge [OF 2 _ extends_edge [OF 1 a e]] by simp
next
  fix a i b assume a: "a < n2" and e: "children (h2 a) i = Some b" and b: "b < n"
  have "b < n1" using b extends_le [OF 1] by simp
  from extends_edge_back [OF 2 a e this] have "a < n1" "children (h1 a) i = Some b" by simp_all
  from extends_edge_back [OF 1 this b] show "a < n \<and> children (h a) i = Some b" .
next
  fix a assume a: "n \<le> a" "a < n2"
  show "\<not> is_end (h2 a) \<and> doc_list (h2 a) = [] \<and> total_freq (h2 a) = 0"
  proof (cases "a < n1")
    case True
    then show ?thesis
      using extends_new [OF 1 a(1) True] extends_payload [OF 2 True] by simp
  next
    case False
    then show ?thesis using extends_new [OF 2 _ a(2)] by simp
  qed
qed

lemma edges_okD:
  "edges_ok h n r path \<Longrightarrow> a < n \<Longrightarrow> children (h a) i = Some b \<Longrightarrow>
     i < ALPHABET_SIZE \<and> b < n \<and> path b = path a @ [i]"
  unfolding edges_ok_def by blast

lemma edges_ok_root: "edges_ok h n r path \<Longrightarrow> r < n \<and> path r = []"
  unfolding edges_ok_def by blast

lemma edges_okI:
  assumes "r < n" and "path r = []"
    and "\<And>a i b. a < n \<Longrightarrow> children (h a) i = Some b \<Longrightarrow>
        i < ALPHABET_SIZE \<and> b < n \<and> path b = path a @ [i]"
  shows "edges_ok h n r path"
  unfolding edges_ok_def using assms by blast

text \<open>Linking a fresh blank node below a node that had no child at this index.\<close>

lemma link_fresh:
  assumes ok: "edges_ok h n r path" and cur: "cur < n" and i: "i < ALPHABET_SIZE"
    and none: "children (h cur) i = None"
    and h2: "h2 = (h(n := blank_node))(cur := (h cur)\<lparr>children := (children (h cur))(i \<mapsto> n)\<rparr>)"
  shows "edges_ok h2 (Suc n) r (path(n := path cur @ [i]))"
    and "extends h n h2 (Suc n)"
    and "children (h2 cur) i = Some n"
proof -
  have cn: "cur \<noteq> n" using cur by simp
  have h2n: "h2 n = blank_node" using cn by (simp add: h2)
  have h2cur: "h2 cur = (h cur)\<lparr>children := (children (h cur))(i \<mapsto> n)\<rparr>" by (simp add: h2)
  have h2other: "\<And>a. a \<noteq> n \<Longrightarrow> a \<noteq> cur \<Longrightarrow> h2 a = h a" by (simp add: h2)
  have blank: "\<And>j. children (h2 n) j = None" by (simp add: h2n blank_node_def)
  have curj: "\<And>j. j \<noteq> i \<Longrightarrow> children (h2 cur) j = children (h cur) j" by (simp add: h2cur)
  have rn: "r < n" and pr: "path r = []" using edges_ok_root [OF ok] by simp_all
  have edge_cases: "\<And>a j b. a < Suc n \<Longrightarrow> children (h2 a) j = Some b \<Longrightarrow>
      (a = cur \<and> j = i \<and> b = n) \<or> (a < n \<and> children (h a) j = Some b)"
  proof -
    fix a j b assume a: "a < Suc n" and e: "children (h2 a) j = Some b"
    have an: "a \<noteq> n" using e blank by auto
    then have a': "a < n" using a by simp
    show "(a = cur \<and> j = i \<and> b = n) \<or> (a < n \<and> children (h a) j = Some b)"
    proof (cases "a = cur")
      case True
      show ?thesis
      proof (cases "j = i")
        case True
        then show ?thesis using e \<open>a = cur\<close> h2cur by simp
      next
        case False
        then show ?thesis using e \<open>a = cur\<close> curj a' by simp
      qed
    next
      case False
      then show ?thesis using e h2other [OF an False] a' by simp
    qed
  qed
  show "children (h2 cur) i = Some n" by (simp add: h2cur)
  show "edges_ok h2 (Suc n) r (path(n := path cur @ [i]))"
  proof (rule edges_okI)
    show "r < Suc n" using rn by simp
    show "(path(n := path cur @ [i])) r = []" using rn pr by simp
  next
    fix a j b
    assume a: "a < Suc n" and e: "children (h2 a) j = Some b"
    from edge_cases [OF a e]
    show "j < ALPHABET_SIZE \<and> b < Suc n \<and> (path(n := path cur @ [i])) b = (path(n := path cur @ [i])) a @ [j]"
    proof
      assume "a = cur \<and> j = i \<and> b = n"
      then show ?thesis using i cn by simp
    next
      assume o: "a < n \<and> children (h a) j = Some b"
      then have "j < ALPHABET_SIZE \<and> b < n \<and> path b = path a @ [j]"
        using edges_okD [OF ok] by blast
      then show ?thesis using o by simp
    qed
  qed
  show "extends h n h2 (Suc n)"
  proof (rule extendsI)
    show "n \<le> Suc n" by simp
  next
    fix a assume a: "a < n"
    show "is_end (h2 a) = is_end (h a) \<and> doc_list (h2 a) = doc_list (h a) \<and>
            total_freq (h2 a) = total_freq (h a)"
    proof (cases "a = cur")
      case True
      then show ?thesis by (simp add: h2cur)
    next
      case False
      then show ?thesis using h2other [of a] a by simp
    qed
  next
    fix a j b assume a: "a < n" and e: "children (h a) j = Some b"
    show "children (h2 a) j = Some b"
    proof (cases "a = cur")
      case True
      then have "j \<noteq> i" using e none by auto
      then show ?thesis using True e curj by simp
    next
      case False
      then show ?thesis using h2other [of a] a e by simp
    qed
  next
    fix a j b assume a: "a < Suc n" and e: "children (h2 a) j = Some b" and b: "b < n"
    from edge_cases [OF a e] b show "a < n \<and> children (h a) j = Some b" by auto
  next
    fix a assume "n \<le> a" "a < Suc n"
    then have "a = n" by simp
    then show "\<not> is_end (h2 a) \<and> doc_list (h2 a) = [] \<and> total_freq (h2 a) = 0"
      using h2n by (simp add: blank_node_def)
  qed
qed


lemma idx_ok_idxn: "idx_ok c \<Longrightarrow> idxn c < ALPHABET_SIZE"
  unfolding idx_ok_def idxn_def by simp arith

lemma idxn_inj: "idx_ok c \<Longrightarrow> idx_ok d \<Longrightarrow> idxn c = idxn d \<Longrightarrow> c = d"
proof -
  assume a: "idx_ok c" "idx_ok d" "idxn c = idxn d"
  then have "char_idx c = char_idx d" unfolding idx_ok_def idxn_def by simp arith
  then have "(of_char c :: nat) = of_char d" by (simp add: char_idx_def)
  then show "c = d" by simp
qed

lemma trie_insert_walk_ok:
  assumes "edges_ok h n r path" and "cur < n" and "trie_insert_walk h n cur w = (h', n', c')"
  shows "\<exists>path'. edges_ok h' n' r path' \<and> (\<forall>a<n. path' a = path a) \<and> extends h n h' n' \<and>
           c' < n' \<and> trie_descend h' cur (filter idx_ok w) = Some c' \<and>
           (\<forall>a. n \<le> a \<longrightarrow> a < n' \<longrightarrow>
              length (path' a) \<le> length (path cur) + length (filter idx_ok w))"
  using assms
proof (induction w arbitrary: h n cur path)
  case Nil
  then have "h' = h" "n' = n" "c' = cur" by simp_all
  then show ?case using Nil.prems by (intro exI [of _ path]) (simp add: extends_refl)
next
  case (Cons c cs)
  show ?case
  proof (cases "idx_ok c")
    case False
    then have "trie_insert_walk h n cur cs = (h', n', c')" using Cons.prems(3) by simp
    from Cons.IH [OF Cons.prems(1,2) this] show ?thesis using False by simp
  next
    case ok: True
    have i26: "idxn c < ALPHABET_SIZE" using ok by (rule idx_ok_idxn)
    show ?thesis
    proof (cases "children (h cur) (idxn c)")
      case (Some nxt)
      have w: "trie_insert_walk h n nxt cs = (h', n', c')"
        using Cons.prems(3) ok Some by (simp add: idxn_def)
      have nxt: "nxt < n" "path nxt = path cur @ [idxn c]"
        using edges_okD [OF Cons.prems(1,2) Some] by simp_all
      from Cons.IH [OF Cons.prems(1) nxt(1) w] obtain path' where
        p1: "edges_ok h' n' r path'" and p2: "\<forall>a<n. path' a = path a" and
        p3: "extends h n h' n'" and p4: "c' < n'" and
        p5: "trie_descend h' nxt (filter idx_ok cs) = Some c'" and
        p6: "\<forall>a. n \<le> a \<longrightarrow> a < n' \<longrightarrow> length (path' a) \<le> length (path nxt) + length (filter idx_ok cs)"
        by blast
      have e: "children (h' cur) (idxn c) = Some nxt"
        using extends_edge [OF p3 Cons.prems(2) Some] .
      have d: "trie_descend h' cur (filter idx_ok (c # cs)) = Some c'"
        using ok e p5 by (simp add: idxn_def)
      have b: "\<forall>a. n \<le> a \<longrightarrow> a < n' \<longrightarrow>
              length (path' a) \<le> length (path cur) + length (filter idx_ok (c # cs))"
        using p6 nxt(2) ok by simp
      show ?thesis using p1 p2 p3 p4 d b by blast
    next
      case None
      define h2 where "h2 = (h(n := blank_node))(cur := (h cur)\<lparr>children := (children (h cur))(idxn c \<mapsto> n)\<rparr>)"
      have cn: "cur \<noteq> n" using Cons.prems(2) by simp
      have w: "trie_insert_walk h2 (Suc n) n cs = (h', n', c')"
        using Cons.prems(3) ok None cn by (simp add: idxn_def h2_def Let_def)
      note lf = link_fresh [OF Cons.prems(1,2) i26 None h2_def]
      have nS: "n < Suc n" by simp
      from Cons.IH [OF lf(1) nS w] obtain path' where
        p1: "edges_ok h' n' r path'" and
        p2: "\<forall>a<Suc n. path' a = (path(n := path cur @ [idxn c])) a" and
        p3: "extends h2 (Suc n) h' n'" and p4: "c' < n'" and
        p5: "trie_descend h' n (filter idx_ok cs) = Some c'" and
        p6: "\<forall>a. Suc n \<le> a \<longrightarrow> a < n' \<longrightarrow>
               length (path' a) \<le> length ((path(n := path cur @ [idxn c])) n) + length (filter idx_ok cs)"
        by blast
      have q2: "\<forall>a<n. path' a = path a" using p2 by simp
      have q3: "extends h n h' n'" using extends_trans [OF lf(2) p3] .
      have e: "children (h' cur) (idxn c) = Some n"
        using extends_edge [OF p3 _ lf(3)] Cons.prems(2) by simp
      have d: "trie_descend h' cur (filter idx_ok (c # cs)) = Some c'"
        using ok e p5 by (simp add: idxn_def)
      have b: "\<forall>a. n \<le> a \<longrightarrow> a < n' \<longrightarrow>
              length (path' a) \<le> length (path cur) + length (filter idx_ok (c # cs))"
      proof (intro allI impI)
        fix a assume a: "n \<le> a" "a < n'"
        show "length (path' a) \<le> length (path cur) + length (filter idx_ok (c # cs))"
        proof (cases "a = n")
          case True
          then have "path' a = path cur @ [idxn c]" using p2 by simp
          then show ?thesis using ok by simp
        next
          case False
          then have "Suc n \<le> a" using a by simp
          then show ?thesis using p6 a(2) ok by fastforce
        qed
      qed
      show ?thesis using p1 q2 q3 p4 d b by blast
    qed
  qed
qed

text \<open>Descents in a tree.\<close>

lemma trie_descend_path:
  assumes "edges_ok h n r path" and "a < n" and "trie_descend h a w = Some b"
  shows "b < n \<and> path b = path a @ map idxn w \<and> (\<forall>c\<in>set w. idx_ok c)"
  using assms(2,3)
proof (induction w arbitrary: a)
  case Nil
  then show ?case by simp
next
  case (Cons c cs)
  from Cons.prems(2) have ok: "idx_ok c" by (simp split: if_splits)
  from Cons.prems(2) ok obtain nxt where
    e: "children (h a) (idxn c) = Some nxt" and d: "trie_descend h nxt cs = Some b"
    by (auto simp: idxn_def split: option.splits)
  from edges_okD [OF assms(1) Cons.prems(1) e] have nxt: "nxt < n" "path nxt = path a @ [idxn c]"
    by simp_all
  from Cons.IH [OF nxt(1) d] show ?case using nxt(2) ok by simp
qed

lemma trie_descend_inj:
  assumes ok: "edges_ok h n r path" and a: "a < n"
    and v: "trie_descend h a v = Some b" and w: "trie_descend h a w = Some b"
  shows "v = w"
proof -
  from trie_descend_path [OF ok a v] trie_descend_path [OF ok a w]
  have m: "map idxn v = map idxn w" and okv: "\<forall>c\<in>set v. idx_ok c" and okw: "\<forall>c\<in>set w. idx_ok c"
    by simp_all
  have "inj_on idxn (set v \<union> set w)"
    using okv okw by (intro inj_onI) (auto intro: idxn_inj)
  then show ?thesis using m by (rule inj_on_map_eq_map [THEN iffD1])
qed

lemma trie_descend_mono:
  assumes ex: "extends h n h' n'" and ok: "edges_ok h n r path"
    and "a < n" and "trie_descend h a w = Some b"
  shows "trie_descend h' a w = Some b"
  using assms(3,4)
proof (induction w arbitrary: a)
  case Nil
  then show ?case by simp
next
  case (Cons c cs)
  from Cons.prems(2) have okc: "idx_ok c" by (simp split: if_splits)
  from Cons.prems(2) okc obtain nxt where
    e: "children (h a) (idxn c) = Some nxt" and d: "trie_descend h nxt cs = Some b"
    by (auto simp: idxn_def split: option.splits)
  have nxt: "nxt < n" using edges_okD [OF ok Cons.prems(1) e] by simp
  have "children (h' a) (idxn c) = Some nxt" using extends_edge [OF ex Cons.prems(1) e] .
  then show ?case using Cons.IH [OF nxt d] okc by (simp add: idxn_def)
qed

lemma trie_descend_back:
  assumes ex: "extends h n h' n'" and ok': "edges_ok h' n' r path'"
    and "a < n'" and "trie_descend h' a w = Some b" and "b < n"
  shows "a < n \<and> trie_descend h a w = Some b"
  using assms(3,4)
proof (induction w arbitrary: a)
  case Nil
  then show ?case using assms(5) by simp
next
  case (Cons c cs)
  from Cons.prems(2) have okc: "idx_ok c" by (simp split: if_splits)
  from Cons.prems(2) okc obtain nxt where
    e: "children (h' a) (idxn c) = Some nxt" and d: "trie_descend h' nxt cs = Some b"
    by (auto simp: idxn_def split: option.splits)
  have nxt': "nxt < n'" using edges_okD [OF ok' Cons.prems(1) e] by simp
  from Cons.IH [OF nxt' d] have nxt: "nxt < n" and d0: "trie_descend h nxt cs = Some b" by simp_all
  from extends_edge_back [OF ex Cons.prems(1) e nxt]
  have "a < n" "children (h a) (idxn c) = Some nxt" by simp_all
  then show ?case using d0 okc by (simp add: idxn_def)
qed

section \<open>Indexing one word\<close>

subsection \<open>Occurrence chains\<close>

lemma bump_doc_None: "bump_doc l d = None \<longleftrightarrow> d \<notin> doc_id ` set l"
  by (induction l) (auto split: option.splits)

lemma bump_doc_Some:
  "bump_doc l d = Some l' \<Longrightarrow>
     map doc_id l' = map doc_id l \<and>
     sum_list (map frequency l') = sum_list (map frequency l) + 1 \<and>
     ((\<forall>dn\<in>set l. 1 \<le> frequency dn) \<longrightarrow> (\<forall>dn\<in>set l'. 1 \<le> frequency dn))"
proof (induction l arbitrary: l')
  case Nil
  then show ?case by simp
next
  case (Cons x l)
  show ?case
  proof (cases "doc_id x = d")
    case True
    then have "l' = x\<lparr>frequency := frequency x + 1\<rparr> # l" using Cons.prems by simp
    then show ?thesis by auto
  next
    case False
    then obtain r where r: "bump_doc l d = Some r" and l': "l' = x # r"
      using Cons.prems by (auto split: option.splits)
    from Cons.IH [OF r] show ?thesis using l' by auto
  qed
qed

lemma doc_list_add_doc_occurrence: "doc_list (add_doc_occurrence nd d) = add_occ d (doc_list nd)"
  by (simp add: add_doc_occurrence_def add_occ_def split: option.split)

lemma add_doc_occurrence_fields [simp]:
  "children (add_doc_occurrence nd d) = children nd"
  "is_end (add_doc_occurrence nd d) = is_end nd"
  "total_freq (add_doc_occurrence nd d) = total_freq nd + 1"
  by (simp_all add: add_doc_occurrence_def split: option.split)

lemma add_occ_ne [simp]: "add_occ d l \<noteq> []"
proof (cases "bump_doc l d")
  case None
  then show ?thesis by (simp add: add_occ_def)
next
  case (Some l')
  then have "d \<in> doc_id ` set l" using bump_doc_None [of l d] by simp
  then have "map doc_id l \<noteq> []" by auto
  then have "l' \<noteq> []" using bump_doc_Some [OF Some] by (metis list.simps(8))
  then show ?thesis using Some by (simp add: add_occ_def)
qed

lemma add_occ_props:
  assumes "distinct (map doc_id l)" and "\<forall>dn\<in>set l. 0 \<le> doc_id dn \<and> doc_id dn < dc \<and> 1 \<le> frequency dn"
    and "0 \<le> d" and "d < dc"
  shows "sum_list (map frequency (add_occ d l)) = sum_list (map frequency l) + 1"
    and "distinct (map doc_id (add_occ d l))"
    and "\<forall>dn\<in>set (add_occ d l). 0 \<le> doc_id dn \<and> doc_id dn < dc \<and> 1 \<le> frequency dn"
proof -
  have *: "sum_list (map frequency (add_occ d l)) = sum_list (map frequency l) + 1 \<and>
        distinct (map doc_id (add_occ d l)) \<and>
        (\<forall>dn\<in>set (add_occ d l). 0 \<le> doc_id dn \<and> doc_id dn < dc \<and> 1 \<le> frequency dn)"
  proof (cases "bump_doc l d")
    case None
    then have "d \<notin> doc_id ` set l" by (simp add: bump_doc_None)
    then show ?thesis using None assms by (auto simp: add_occ_def)
  next
    case (Some l')
    note b = bump_doc_Some [OF Some]
    have ids: "map doc_id l' = map doc_id l" using b by simp
    have f1: "\<forall>dn\<in>set l'. 1 \<le> frequency dn" using b assms(2) by blast
    have "set (map doc_id l') = set (map doc_id l)" using ids by simp
    then have rng: "\<forall>dn\<in>set l'. 0 \<le> doc_id dn \<and> doc_id dn < dc"
      using assms(2) by (metis (no_types, lifting) image_iff list.set_map)
    show ?thesis using Some b ids f1 rng assms(1) by (simp add: add_occ_def)
  qed
  from * show "sum_list (map frequency (add_occ d l)) = sum_list (map frequency l) + 1" by simp
  from * show "distinct (map doc_id (add_occ d l))" by simp
  from * show "\<forall>dn\<in>set (add_occ d l). 0 \<le> doc_id dn \<and> doc_id dn < dc \<and> 1 \<le> frequency dn" by simp
qed

lemma node_ok_blank: "node_ok dc blank_node"
  by (simp add: node_ok_def blank_node_def)

lemma node_ok_payload:
  "node_ok dc nd \<Longrightarrow> is_end nd' = is_end nd \<Longrightarrow> doc_list nd' = doc_list nd \<Longrightarrow>
     total_freq nd' = total_freq nd \<Longrightarrow> node_ok dc nd'"
  by (simp add: node_ok_def)

lemma node_ok_mono: "node_ok dc nd \<Longrightarrow> dc \<le> dc' \<Longrightarrow> node_ok dc' nd"
  unfolding node_ok_def by fastforce

lemma node_ok_add:
  assumes "node_ok dc nd" and "0 \<le> d" and "d < dc"
  shows "node_ok dc (add_doc_occurrence (nd\<lparr>is_end := True\<rparr>) d)"
proof -
  have l: "distinct (map doc_id (doc_list nd))"
    "\<forall>dn\<in>set (doc_list nd). 0 \<le> doc_id dn \<and> doc_id dn < dc \<and> 1 \<le> frequency dn"
    "total_freq nd = sum_list (map frequency (doc_list nd))"
    using assms(1) by (simp_all add: node_ok_def)
  note p = add_occ_props [OF l(1,2) assms(2,3)]
  show ?thesis
    unfolding node_ok_def using p l(3) by (simp add: doc_list_add_doc_occurrence)
qed

subsection \<open>Normalized words\<close>

lemma tolower_idx_ok: "isalpha c \<Longrightarrow> idx_ok (tolower c)"
proof -
  assume a: "isalpha c"
  show "idx_ok (tolower c)"
  proof (cases "65 \<le> (of_char c :: nat) \<and> (of_char c :: nat) \<le> 90")
    case True
    then have "(of_char (tolower c) :: nat) = of_char c + 32"
      by (simp add: tolower_def Let_def)
    then show ?thesis using True by (simp add: idx_ok_def char_idx_def)
  next
    case False
    then have "tolower c = c" by (auto simp: tolower_def Let_def)
    then show ?thesis using a False by (auto simp: isalpha_def idx_ok_def char_idx_def Let_def)
  qed
qed

lemma normalize_word_idx_ok: "c \<in> set (normalize_word s) \<Longrightarrow> idx_ok c"
  by (auto simp: normalize_word_def tolower_idx_ok)

lemma filter_idx_ok_normalize [simp]: "filter idx_ok (normalize_word s) = normalize_word s"
  by (rule filter_True) (simp add: normalize_word_idx_ok)

lemma length_normalize_copy: "length (normalize_word (copy_word s)) < MAX_WORD_LEN"
proof -
  have "length (normalize_word (copy_word s)) \<le> length (copy_word s)"
    by (simp add: normalize_word_def)
  also have "\<dots> \<le> 99" by (simp add: copy_word_def)
  finally show ?thesis by simp
qed


subsection \<open>The effect of one insertion on the store\<close>

lemma edges_ok_children_cong:
  assumes "\<And>a. children (h' a) = children (h a)" and "edges_ok h n r path"
  shows "edges_ok h' n r path"
proof (rule edges_okI)
  show "r < n" "path r = []" using edges_ok_root [OF assms(2)] by simp_all
next
  fix a i b assume "a < n" "children (h' a) i = Some b"
  then show "i < ALPHABET_SIZE \<and> b < n \<and> path b = path a @ [i]"
    using edges_okD [OF assms(2), of a i b] assms(1) by simp
qed

lemma trie_descend_children_cong:
  assumes "\<And>a. children (h' a) = children (h a)"
  shows "trie_descend h' a w = trie_descend h a w"
  by (induction w arbitrary: a) (simp_all add: assms split: option.split)

lemma trie_insert_effect:
  assumes ok: "edges_ok h n r path" and depth: "\<forall>a<n. length (path a) < MAX_WORD_LEN"
    and w_ok: "\<forall>c\<in>set w. idx_ok c" and wlen: "length w < MAX_WORD_LEN"
    and ins: "trie_insert h n r w d = (h', n', c)"
  shows "\<exists>path'. edges_ok h' n' r path' \<and> (\<forall>a<n'. length (path' a) < MAX_WORD_LEN)"
    and "n \<le> n'" and "c < n'"
    and "trie_descend h' r w = Some c"
    and "\<And>a. a < n' \<Longrightarrow> a \<noteq> c \<Longrightarrow> payload (h' a) = (if a < n then payload (h a) else payload blank_node)"
    and "payload (h' c) =
           (True, add_occ d (doc_list (if c < n then h c else blank_node)),
            total_freq (if c < n then h c else blank_node) + 1)"
    and "\<And>v a. trie_descend h r v = Some a \<Longrightarrow> trie_descend h' r v = Some a"
    and "\<And>v a. trie_descend h' r v = Some a \<Longrightarrow> a < n \<Longrightarrow> trie_descend h r v = Some a"
    and "\<And>v. trie_descend h' r v = Some c \<Longrightarrow> v = w"
    and "\<And>v a. trie_descend h' r v = Some a \<Longrightarrow> a < n'"
proof -
  obtain h1 n1 c1 where walk: "trie_insert_walk h n r w = (h1, n1, c1)"
    by (cases "trie_insert_walk h n r w") auto
  have h': "h' = h1(c := add_doc_occurrence ((h1 c)\<lparr>is_end := True\<rparr>) d)"
    and n': "n' = n1" and c: "c = c1"
    using ins walk by (auto simp: trie_insert_def Let_def)
  have rn: "r < n" and pr: "path r = []" using edges_ok_root [OF ok] by simp_all
  have fw: "filter idx_ok w = w" using w_ok by (intro filter_True) simp
  from trie_insert_walk_ok [OF ok rn walk] obtain path' where
    p1: "edges_ok h1 n1 r path'" and p2: "\<forall>a<n. path' a = path a" and
    p3: "extends h n h1 n1" and p4: "c1 < n1" and
    p5: "trie_descend h1 r w = Some c1" and
    p6: "\<forall>a. n \<le> a \<longrightarrow> a < n1 \<longrightarrow> length (path' a) \<le> length (path r) + length w"
    unfolding fw by blast
  have ch: "\<And>a. children (h' a) = children (h1 a)" by (simp add: h')
  have desc: "\<And>a v. trie_descend h' a v = trie_descend h1 a v"
    using ch by (rule trie_descend_children_cong)
  have e': "edges_ok h' n' r path'" unfolding n' using ch p1 by (rule edges_ok_children_cong)
  have d': "\<forall>a<n'. length (path' a) < MAX_WORD_LEN"
  proof (intro allI impI)
    fix a assume a: "a < n'"
    show "length (path' a) < MAX_WORD_LEN"
    proof (cases "a < n")
      case True
      then show ?thesis using p2 depth by simp
    next
      case False
      then have "length (path' a) \<le> length (path r) + length w" using p6 a n' by simp
      then show ?thesis using pr wlen by simp
    qed
  qed
  show "\<exists>path'. edges_ok h' n' r path' \<and> (\<forall>a<n'. length (path' a) < MAX_WORD_LEN)"
    using e' d' by blast
  show "n \<le> n'" using extends_le [OF p3] n' by simp
  show "c < n'" using p4 c n' by simp
  show "trie_descend h' r w = Some c" using p5 desc c by simp
  show "\<And>a. a < n' \<Longrightarrow> a \<noteq> c \<Longrightarrow> payload (h' a) = (if a < n then payload (h a) else payload blank_node)"
  proof -
    fix a assume a: "a < n'" "a \<noteq> c"
    have eq: "h' a = h1 a" using a(2) by (simp add: h')
    show "payload (h' a) = (if a < n then payload (h a) else payload blank_node)"
    proof (cases "a < n")
      case True
      then show ?thesis using extends_payload [OF p3 True] eq by (simp add: payload_def)
    next
      case False
      then show ?thesis using extends_new [OF p3, of a] a(1) n' eq
        by (simp add: payload_def blank_node_def)
    qed
  qed
  show "payload (h' c) =
           (True, add_occ d (doc_list (if c < n then h c else blank_node)),
            total_freq (if c < n then h c else blank_node) + 1)"
  proof (cases "c < n")
    case True
    then show ?thesis using extends_payload [OF p3 True]
      by (simp add: h' payload_def doc_list_add_doc_occurrence)
  next
    case False
    then show ?thesis using extends_new [OF p3, of c] p4 c
      by (simp add: h' payload_def doc_list_add_doc_occurrence blank_node_def)
  qed
  show mono: "\<And>v a. trie_descend h r v = Some a \<Longrightarrow> trie_descend h' r v = Some a"
    using trie_descend_mono [OF p3 ok rn] desc by simp
  show "\<And>v a. trie_descend h' r v = Some a \<Longrightarrow> a < n \<Longrightarrow> trie_descend h r v = Some a"
  proof -
    fix v a assume "trie_descend h' r v = Some a" "a < n"
    then have "trie_descend h1 r v = Some a" using desc by simp
    moreover have "r < n1" using edges_ok_root [OF p1] by simp
    ultimately show "trie_descend h r v = Some a"
      using trie_descend_back [OF p3 p1 _ _ \<open>a < n\<close>] by blast
  qed
  show "\<And>v. trie_descend h' r v = Some c \<Longrightarrow> v = w"
  proof -
    fix v assume "trie_descend h' r v = Some c"
    then have "trie_descend h1 r v = Some c1" using desc c by simp
    moreover have "r < n1" using edges_ok_root [OF p1] by simp
    ultimately show "v = w" using trie_descend_inj [OF p1 _ _ p5] by blast
  qed
  show "\<And>v a. trie_descend h' r v = Some a \<Longrightarrow> a < n'"
  proof -
    fix v a assume "trie_descend h' r v = Some a"
    moreover have "r < n'" using edges_ok_root [OF e'] by simp
    ultimately show "a < n'" using trie_descend_path [OF e'] by blast
  qed
qed


subsection \<open>The effect of indexing one word\<close>

lemma hash_search_store [simp]:
  "hash_search (e\<lparr>trie_nodes := h, node_count := n\<rparr>) v = hash_search e v"
  by (simp add: hash_search_def)

lemma hash_search_hash_insert:
  "hash_search (hash_insert e w a) v =
     (if v = w then (case hash_search e w of None \<Rightarrow> Some a | Some b \<Rightarrow> Some b)
      else hash_search e v)"
proof (cases "chain_find (hash_table e (hash_func w)) w")
  case None
  then show ?thesis by (auto simp: hash_insert_def hash_search_def Let_def)
next
  case (Some b)
  then show ?thesis by (auto simp: hash_insert_def hash_search_def Let_def)
qed

lemma trie_search_Some:
  "trie_search h r w = Some a \<longleftrightarrow> trie_descend h r w = Some a \<and> is_end (h a)"
  by (auto simp: trie_search_def split: option.splits)

lemma trie_search_None:
  "trie_search h r w = None \<longleftrightarrow> (\<forall>a. trie_descend h r w = Some a \<longrightarrow> \<not> is_end (h a))"
  by (auto simp: trie_search_def split: option.splits)

lemma payload_fields:
  "payload nd = (b, l, t) \<Longrightarrow> is_end nd = b \<and> doc_list nd = l \<and> total_freq nd = t"
  by (simp add: payload_def)

lemma node_ok_payload_eq: "node_ok dc nd \<Longrightarrow> payload nd' = payload nd \<Longrightarrow> node_ok dc nd'"
  by (simp add: node_ok_def payload_def)

lemma index_word_effect:
  assumes ok: "engine_ok e" and w: "w = normalize_word (copy_word tok)" and len: "2 \<le> length w"
    and d: "0 \<le> d" "d < doc_count e"
  shows "engine_ok (index_word e tok d)"
    and "\<And>v. occurrences (index_word e tok d) v =
           (if v = w then add_occ d (occurrences e w) else occurrences e v)"
    and "\<And>v a. hash_search e v = Some a \<Longrightarrow> hash_search (index_word e tok d) v = Some a"
    and "hash_search (index_word e tok d) w \<noteq> None"
    and "\<And>v. v \<noteq> w \<Longrightarrow> hash_search (index_word e tok d) v = hash_search e v"
proof -
  define h where "h = trie_nodes e"
  define n where "n = node_count e"
  define r where "r = trie_root e"
  obtain h' n' c where ins: "trie_insert h n r w d = (h', n', c)"
    by (cases "trie_insert h n r w d") auto
  define e' where "e' = index_word e tok d"
  have e'_eq: "e' = hash_insert (e\<lparr>trie_nodes := h', node_count := n'\<rparr>) w c"
    using ins len w by (simp add: e'_def index_word_def Let_def h_def n_def r_def)
  have fields: "trie_nodes e' = h'" "node_count e' = n'" "trie_root e' = r"
    "doc_count e' = doc_count e" "documents e' = documents e"
    by (simp_all add: e'_eq r_def)
  from ok obtain path where edges: "edges_ok h n r path"
    and depth: "\<forall>a<n. length (path a) < MAX_WORD_LEN"
    unfolding engine_ok_def trie_ok_def h_def n_def r_def by blast
  have ht: "\<And>v. hash_search e v = trie_search h r v"
    using ok unfolding engine_ok_def h_def r_def by blast
  have nodes: "\<And>a. a < n \<Longrightarrow> node_ok (doc_count e) (h a)"
    using ok unfolding engine_ok_def h_def n_def by blast
  have reg: "registry_ok e" using ok unfolding engine_ok_def by blast
  have rn: "r < n" using edges_ok_root [OF edges] by simp
  have w_ok: "\<forall>c\<in>set w. idx_ok c" using w by (simp add: normalize_word_idx_ok)
  have wlen: "length w < MAX_WORD_LEN" using w by (simp add: length_normalize_copy)
  note T = trie_insert_effect [OF edges depth w_ok wlen ins]
  have old_lt: "\<And>v a. trie_descend h r v = Some a \<Longrightarrow> a < n"
    using trie_descend_path [OF edges rn] by blast
  have A: "\<And>a. hash_search e w = Some a \<Longrightarrow> a = c"
  proof -
    fix a assume "hash_search e w = Some a"
    then have "trie_descend h r w = Some a" using ht by (simp add: trie_search_Some)
    then have "trie_descend h' r w = Some a" by (rule T(7))
    then show "a = c" using T(4) by simp
  qed
  have B: "\<And>v. hash_search e' v = (if v = w then Some c else hash_search e v)"
  proof -
    fix v
    show "hash_search e' v = (if v = w then Some c else hash_search e v)"
      using A by (cases "hash_search e w") (auto simp: e'_eq hash_search_hash_insert)
  qed
  have endc: "is_end (h' c)" and listc: "doc_list (h' c) = add_occ d (doc_list (if c < n then h c else blank_node))"
    and totc: "total_freq (h' c) = total_freq (if c < n then h c else blank_node) + 1"
    using payload_fields [OF T(6)] by simp_all
  have C: "\<And>v. hash_search e' v = trie_search h' r v"
  proof -
    fix v
    show "hash_search e' v = trie_search h' r v"
    proof (cases "v = w")
      case True
      then show ?thesis using B T(4) endc by (simp add: trie_search_def)
    next
      case vw: False
      have "trie_search h' r v = trie_search h r v"
      proof (cases "trie_descend h' r v")
        case None
        then have "trie_descend h r v = None" using T(7) [of v] by (cases "trie_descend h r v") auto
        then show ?thesis using None by (simp add: trie_search_def)
      next
        case (Some a)
        have ac: "a \<noteq> c" using T(9) [of v] Some vw by auto
        have an': "a < n'" using T(10) [OF Some] .
        show ?thesis
        proof (cases "a < n")
          case True
          have "trie_descend h r v = Some a" using T(8) [OF Some True] .
          moreover have "is_end (h' a) = is_end (h a)"
            using T(5) [OF an' ac] True by (simp add: payload_def)
          ultimately show ?thesis using Some by (simp add: trie_search_def)
        next
          case False
          then have "\<not> is_end (h' a)"
            using T(5) [OF an' ac] by (simp add: payload_def blank_node_def)
          then have 1: "trie_search h' r v = None" using Some by (simp add: trie_search_def)
          have "trie_descend h r v = None"
          proof (cases "trie_descend h r v")
            case None
            then show ?thesis .
          next
            case (Some b)
            then have "b < n" by (rule old_lt)
            moreover have "b = a" using T(7) [OF Some] \<open>trie_descend h' r v = Some a\<close> by simp
            ultimately show ?thesis using False by simp
          qed
          then show ?thesis using 1 by (simp add: trie_search_def)
        qed
      qed
      then show ?thesis using B vw ht by simp
    qed
  qed
  have nd0: "node_ok (doc_count e) (if c < n then h c else blank_node)"
    using nodes node_ok_blank by simp
  have D: "\<And>a. a < n' \<Longrightarrow> node_ok (doc_count e) (h' a)"
  proof -
    fix a assume a: "a < n'"
    show "node_ok (doc_count e) (h' a)"
    proof (cases "a = c")
      case True
      have "payload (h' c) = payload (add_doc_occurrence ((if c < n then h c else blank_node)\<lparr>is_end := True\<rparr>) d)"
        unfolding T(6) by (simp add: payload_def doc_list_add_doc_occurrence)
      then show ?thesis using node_ok_add [OF nd0 d] True node_ok_payload_eq by blast
    next
      case False
      show ?thesis
      proof (cases "a < n")
        case True
        then show ?thesis using T(5) [OF a False] nodes [OF True] node_ok_payload_eq by simp
      next
        case nn: False
        then show ?thesis using T(5) [OF a False] node_ok_blank [of "doc_count e"] node_ok_payload_eq by simp
      qed
    qed
  qed
  have trie': "trie_ok e'" unfolding trie_ok_def fields using T(1) .
  have reg': "registry_ok e'" using reg fields by (intro registry_ok_cong [OF reg]) simp_all
  show "engine_ok (index_word e tok d)"
    unfolding e'_def [symmetric] engine_ok_def fields using reg' trie' D C fields by simp
  show "\<And>v. occurrences (index_word e tok d) v =
           (if v = w then add_occ d (occurrences e w) else occurrences e v)"
  proof -
    fix v
    show "occurrences (index_word e tok d) v =
           (if v = w then add_occ d (occurrences e w) else occurrences e v)"
    proof (cases "v = w")
      case True
      have "doc_list (if c < n then h c else blank_node) = occurrences e w"
      proof (cases "hash_search e w")
        case (Some a)
        then have ac: "a = c" by (rule A)
        have "trie_descend h r w = Some a" using Some ht by (simp add: trie_search_Some)
        then have "a < n" by (rule old_lt)
        then show ?thesis using Some ac by (simp add: occurrences_def h_def)
      next
        case None
        have "doc_list (if c < n then h c else blank_node) = []"
        proof (cases "c < n")
          case True
          have "trie_descend h r w = Some c" using T(8) [OF T(4) True] .
          then have "\<not> is_end (h c)" using None ht by (simp add: trie_search_None)
          then show ?thesis using nodes [OF True] True by (simp add: node_ok_def)
        next
          case False
          then show ?thesis by (simp add: blank_node_def)
        qed
        then show ?thesis using None by (simp add: occurrences_def)
      qed
      then show ?thesis
        using True B [of w] listc fields by (simp add: occurrences_def e'_def [symmetric])
    next
      case vw: False
      show ?thesis
      proof (cases "hash_search e v")
        case None
        then show ?thesis using vw B [of v] by (simp add: occurrences_def e'_def [symmetric])
      next
        case (Some a)
        have da: "trie_descend h r v = Some a" using Some ht by (simp add: trie_search_Some)
        then have an: "a < n" by (rule old_lt)
        have "trie_descend h' r v = Some a" using da by (rule T(7))
        then have ac: "a \<noteq> c" using T(9) [of v] vw by auto
        have "a < n'" using an T(2) by simp
        then have "doc_list (h' a) = doc_list (h a)" using T(5) [OF _ ac] an by (simp add: payload_def)
        then show ?thesis using vw B [of v] Some fields
          by (simp add: occurrences_def e'_def [symmetric] h_def)
      qed
    qed
  qed
  show "\<And>v a. hash_search e v = Some a \<Longrightarrow> hash_search (index_word e tok d) v = Some a"
    using A B by (auto simp: e'_def [symmetric])
  show "hash_search (index_word e tok d) w \<noteq> None"
    using B by (simp add: e'_def [symmetric])
  show "\<And>v. v \<noteq> w \<Longrightarrow> hash_search (index_word e tok d) v = hash_search e v"
    using B by (simp add: e'_def [symmetric])
qed

section \<open>Indexing a text\<close>

lemma doc_words_Cons:
  "doc_words (t # toks) =
     (if 2 \<le> length (normalize_word (copy_word t)) then normalize_word (copy_word t) # doc_words toks
      else doc_words toks)"
  by (simp add: doc_words_def)

lemma index_tokens_effect:
  assumes "engine_ok e" and "0 \<le> d" and "d < doc_count e"
  shows "engine_ok (fst (index_tokens e toks d wc)) \<and>
         (\<forall>v. occurrences (fst (index_tokens e toks d wc)) v =
               (add_occ d ^^ count_list (doc_words toks) v) (occurrences e v)) \<and>
         (\<forall>v a. hash_search e v = Some a \<longrightarrow> hash_search (fst (index_tokens e toks d wc)) v = Some a)"
  using assms
proof (induction toks arbitrary: e wc)
  case Nil
  then show ?case by (simp add: doc_words_def)
next
  case (Cons t toks)
  define w where "w = normalize_word (copy_word t)"
  show ?case
  proof (cases "2 \<le> length w")
    case False
    then have same: "index_word e t d = e" using index_word_short [of t e d] by (simp add: w_def)
    have dw: "doc_words (t # toks) = doc_words toks" using False by (simp add: doc_words_Cons w_def)
    show ?thesis using Cons.IH [OF Cons.prems, of "wc + 1"] by (simp add: same dw)
  next
    case True
    note E = index_word_effect [OF Cons.prems(1) w_def True Cons.prems(2,3)]
    have dc: "d < doc_count (index_word e t d)" using Cons.prems(3) by simp
    note IH = Cons.IH [OF E(1) Cons.prems(2) dc, of "wc + 1"]
    have dw: "doc_words (t # toks) = w # doc_words toks" using True by (simp add: doc_words_Cons w_def)
    have occ: "\<forall>v. occurrences (fst (index_tokens e (t # toks) d wc)) v =
               (add_occ d ^^ count_list (doc_words (t # toks)) v) (occurrences e v)"
    proof
      fix v
      have "occurrences (fst (index_tokens e (t # toks) d wc)) v =
            (add_occ d ^^ count_list (doc_words toks) v) (occurrences (index_word e t d) v)"
        using IH by simp
      also have "\<dots> = (add_occ d ^^ count_list (doc_words (t # toks)) v) (occurrences e v)"
        by (simp add: E(2) dw funpow_swap1)
      finally show "occurrences (fst (index_tokens e (t # toks) d wc)) v =
               (add_occ d ^^ count_list (doc_words (t # toks)) v) (occurrences e v)" .
    qed
    have keep: "\<forall>v a. hash_search e v = Some a \<longrightarrow>
        hash_search (fst (index_tokens e (t # toks) d wc)) v = Some a"
      using IH E(3) by simp
    show ?thesis using IH occ keep by simp
  qed
qed

lemma funpow_add_occ:
  "d \<notin> doc_id ` set l \<Longrightarrow>
   (add_occ d ^^ Suc k) l = \<lparr>doc_id = d, frequency = int (Suc k)\<rparr> # l"
proof (induction k)
  case 0
  then have "bump_doc l d = None" by (simp add: bump_doc_None)
  then show ?case by (simp add: add_occ_def)
next
  case (Suc k)
  then have "(add_occ d ^^ Suc (Suc k)) l = add_occ d (\<lparr>doc_id = d, frequency = int (Suc k)\<rparr> # l)"
    by simp
  also have "\<dots> = \<lparr>doc_id = d, frequency = int (Suc (Suc k))\<rparr> # l"
    by (simp add: add_occ_def)
  finally show ?case .
qed

lemma funpow_add_occ_new:
  "d \<notin> doc_id ` set l \<Longrightarrow>
   (add_occ d ^^ k) l = (if k = 0 then l else \<lparr>doc_id = d, frequency = int k\<rparr> # l)"
  using funpow_add_occ [of d l "k - 1"] by (cases k) simp_all

subsection \<open>The invariant holds in every reachable engine\<close>

lemma hash_search_add_document [simp]: "hash_search (add_document e name) v = hash_search e v"
  by (simp add: hash_search_def add_document_def)

lemma add_document_store [simp]:
  "trie_nodes (add_document e name) = trie_nodes e"
  "node_count (add_document e name) = node_count e"
  "trie_root (add_document e name) = trie_root e"
  by (simp_all add: add_document_def)

lemma occurrences_add_document [simp]: "occurrences (add_document e name) v = occurrences e v"
  by (simp add: occurrences_def split: option.split)

lemma engine_ok_add_document:
  assumes "engine_ok e"
  shows "engine_ok (add_document e name)"
proof -
  have "registry_ok (add_document e name)"
    using assms by (simp add: engine_ok_def registry_ok_add_document)
  moreover have "trie_ok (add_document e name)"
    using assms by (simp add: engine_ok_def trie_ok_def add_document_def)
  moreover have "\<forall>a<node_count (add_document e name).
      node_ok (doc_count (add_document e name)) (trie_nodes (add_document e name) a)"
  proof (intro allI impI)
    fix a assume "a < node_count (add_document e name)"
    then have "node_ok (doc_count e) (trie_nodes e a)"
      using assms by (simp add: engine_ok_def add_document_def)
    then show "node_ok (doc_count (add_document e name)) (trie_nodes (add_document e name) a)"
      by (simp add: add_document_def node_ok_mono)
  qed
  moreover have "\<forall>w. hash_search (add_document e name) w =
      trie_search (trie_nodes (add_document e name)) (trie_root (add_document e name)) w"
    using assms by (simp add: engine_ok_def)
  ultimately show ?thesis unfolding engine_ok_def by blast
qed

lemma hash_search_documents [simp]: "hash_search (e\<lparr>documents := ds\<rparr>) v = hash_search e v"
  by (simp add: hash_search_def)

lemma occurrences_documents [simp]: "occurrences (e\<lparr>documents := ds\<rparr>) v = occurrences e v"
  by (simp add: occurrences_def split: option.split)

lemma engine_ok_set_word_count:
  assumes "engine_ok e"
  shows "engine_ok (e\<lparr>documents := set_word_count (documents e) i wc\<rparr>)"
proof -
  have "registry_ok (e\<lparr>documents := set_word_count (documents e) i wc\<rparr>)"
    using assms by (simp add: engine_ok_def registry_ok_def)
  then show ?thesis using assms by (simp add: engine_ok_def trie_ok_def)
qed

lemma engine_ok_create: "engine_ok create_search_engine"
proof -
  have "edges_ok (\<lambda>_. blank_node) 1 0 (\<lambda>_. [])"
    by (rule edges_okI) (simp_all add: blank_node_def)
  then have "trie_ok create_search_engine"
    unfolding trie_ok_def by (auto simp: create_search_engine_def)
  moreover have "\<forall>w. hash_search create_search_engine w =
      trie_search (trie_nodes create_search_engine) (trie_root create_search_engine) w"
  proof
    fix w
    show "hash_search create_search_engine w =
      trie_search (trie_nodes create_search_engine) (trie_root create_search_engine) w"
      by (cases w) (simp_all add: hash_search_def trie_search_def create_search_engine_def blank_node_def)
  qed
  ultimately show ?thesis
    unfolding engine_ok_def
    by (simp add: registry_ok_create) (simp add: create_search_engine_def node_ok_blank)
qed

lemma index_text_tokens:
  "fst (index_text e name text) =
     (fst (index_tokens (add_document e name) (strtok_all text) (doc_count e) 0))
       \<lparr>documents := set_word_count
          (documents (fst (index_tokens (add_document e name) (strtok_all text) (doc_count e) 0)))
          (doc_count e) (int (length (strtok_all text)))\<rparr>"
  by (simp add: index_text_fst)

lemma index_text_effect:
  assumes "engine_ok e"
  shows "engine_ok (fst (index_text e name text))"
    and "\<And>v. occurrences (fst (index_text e name text)) v =
           (add_occ (doc_count e) ^^ count_list (doc_words (strtok_all text)) v) (occurrences e v)"
    and "\<And>v a. hash_search e v = Some a \<Longrightarrow> hash_search (fst (index_text e name text)) v = Some a"
proof -
  have ok1: "engine_ok (add_document e name)" using assms by (rule engine_ok_add_document)
  have d0: "0 \<le> doc_count e" using assms by (simp add: engine_ok_def registry_ok_def)
  have d1: "doc_count e < doc_count (add_document e name)" by (simp add: add_document_def)
  note T = index_tokens_effect [OF ok1 d0 d1, of "strtok_all text" 0]
  show "engine_ok (fst (index_text e name text))"
    unfolding index_text_tokens using T by (intro engine_ok_set_word_count) simp
  show "\<And>v. occurrences (fst (index_text e name text)) v =
           (add_occ (doc_count e) ^^ count_list (doc_words (strtok_all text)) v) (occurrences e v)"
    unfolding index_text_tokens using T by simp
  show "\<And>v a. hash_search e v = Some a \<Longrightarrow> hash_search (fst (index_text e name text)) v = Some a"
    unfolding index_text_tokens using T by simp
qed

lemma reachable_engine_ok: "reachable e \<Longrightarrow> engine_ok e"
  by (induction rule: reachable.induct) (simp_all add: engine_ok_create index_text_effect(1))

subsection \<open>What the invariant says about a looked-up word\<close>

lemma engine_ok_lookup:
  assumes "engine_ok e" and "hash_search e w = Some a"
  shows "a < node_count e" and "node_ok (doc_count e) (trie_nodes e a)"
    and "trie_search (trie_nodes e) (trie_root e) w = Some a"
    and "is_end (trie_nodes e a)"
proof -
  from assms(1) obtain path where
    edges: "edges_ok (trie_nodes e) (node_count e) (trie_root e) path"
    unfolding engine_ok_def trie_ok_def by blast
  show ts: "trie_search (trie_nodes e) (trie_root e) w = Some a"
    using assms unfolding engine_ok_def by simp
  then have d: "trie_descend (trie_nodes e) (trie_root e) w = Some a" and e: "is_end (trie_nodes e a)"
    by (simp_all add: trie_search_Some)
  show "is_end (trie_nodes e a)" by (rule e)
  show a: "a < node_count e"
    using trie_descend_path [OF edges _ d] edges_ok_root [OF edges] by simp
  show "node_ok (doc_count e) (trie_nodes e a)"
    using assms(1) a unfolding engine_ok_def by simp
qed

lemma engine_ok_occurrences:
  assumes "engine_ok e"
  shows "distinct (map doc_id (occurrences e w))"
    and "\<forall>dn\<in>set (occurrences e w). 0 \<le> doc_id dn \<and> doc_id dn < doc_count e \<and> 1 \<le> frequency dn"
    and "hash_search e w = None \<longleftrightarrow> occurrences e w = []"
proof -
  have *: "distinct (map doc_id (occurrences e w)) \<and>
    (\<forall>dn\<in>set (occurrences e w). 0 \<le> doc_id dn \<and> doc_id dn < doc_count e \<and> 1 \<le> frequency dn) \<and>
    (hash_search e w = None \<longleftrightarrow> occurrences e w = [])"
  proof (cases "hash_search e w")
    case None
    then show ?thesis by (simp add: occurrences_def)
  next
    case (Some a)
    note L = engine_ok_lookup [OF assms Some]
    show ?thesis using L(2,4) Some by (simp add: occurrences_def node_ok_def)
  qed
  from * show "distinct (map doc_id (occurrences e w))" by simp
  from * show "\<forall>dn\<in>set (occurrences e w). 0 \<le> doc_id dn \<and> doc_id dn < doc_count e \<and> 1 \<le> frequency dn"
    by simp
  from * show "hash_search e w = None \<longleftrightarrow> occurrences e w = []" by simp
qed

lemma index_text_occurrences:
  assumes "engine_ok e"
  shows "occurrences (fst (index_text e name text)) v =
           (if count_list (doc_words (strtok_all text)) v = 0 then occurrences e v
            else \<lparr>doc_id = doc_count e, frequency = int (count_list (doc_words (strtok_all text)) v)\<rparr>
                   # occurrences e v)"
proof -
  have "doc_count e \<notin> doc_id ` set (occurrences e v)"
    using engine_ok_occurrences(2) [OF assms, of v] by auto
  then show ?thesis
    unfolding index_text_effect(2) [OF assms] by (rule funpow_add_occ_new)
qed

subsection \<open>The registry after indexing a text\<close>

lemma get_document_after_index_text:
  "get_document (fst (index_text e name text)) i =
     (if i = doc_count e
      then Some \<lparr>id_doc = doc_count e, filename = name, word_count = int (length (strtok_all text))\<rparr>
      else get_document e i)"
  by (simp add: index_text_fst get_document_def add_document_def)

lemma count_doc_words_le: "count_list (doc_words toks) w \<le> length toks"
proof -
  have "count_list (doc_words toks) w \<le> length (doc_words toks)" by (rule count_le_length)
  also have "\<dots> \<le> length toks"
    unfolding doc_words_def using length_filter_le [of _ "map (\<lambda>t. normalize_word (copy_word t)) toks"]
    by simp
  finally show ?thesis .
qed

section \<open>C5: short tokens\<close>

text \<open>
  C5. In every call of \<^verbatim>\<open>index_text\<close>, a token whose normalized form has fewer than 2
  characters changes neither the trie nor the hash table (\<^verbatim>\<open>index_word\<close> returns the
  engine as it was, so the final engine is the one the remaining tokens alone produce),
  and the \<^verbatim>\<open>word_count\<close> stored for the new document after the loop is the number of
  all tokens \<^verbatim>\<open>strtok\<close> produced, the short ones included.
\<close>

theorem short_tokens_skipped_but_counted:
  "(length (normalize_word (copy_word tok)) < 2 \<longrightarrow> index_word e tok d = e) \<and>
   fst (index_text e name text) =
     (fst (index_tokens (add_document e name)
            (filter (\<lambda>t. \<not> length (normalize_word (copy_word t)) < 2) (strtok_all text))
            (doc_count e) 0))
       \<lparr>documents := set_word_count (documents (add_document e name)) (doc_count e)
                       (int (length (strtok_all text)))\<rparr> \<and>
   snd (index_text e name text) = doc_count e \<and>
   get_document (fst (index_text e name text)) (snd (index_text e name text)) =
     Some \<lparr>id_doc = doc_count e, filename = name, word_count = int (length (strtok_all text))\<rparr>"
proof (intro conjI)
  show "length (normalize_word (copy_word tok)) < 2 \<longrightarrow> index_word e tok d = e"
    by (simp add: index_word_short)
  show "fst (index_text e name text) =
     (fst (index_tokens (add_document e name)
            (filter (\<lambda>t. \<not> length (normalize_word (copy_word t)) < 2) (strtok_all text))
            (doc_count e) 0))
       \<lparr>documents := set_word_count (documents (add_document e name)) (doc_count e)
                       (int (length (strtok_all text)))\<rparr>"
    using index_tokens_skip_short [of "add_document e name" "strtok_all text" "doc_count e" 0]
    by (simp add: index_text_fst)
  show "snd (index_text e name text) = doc_count e"
    by (rule index_text_snd)
  show "get_document (fst (index_text e name text)) (snd (index_text e name text)) =
     Some \<lparr>id_doc = doc_count e, filename = name, word_count = int (length (strtok_all text))\<rparr>"
    by (simp add: index_text_snd get_document_index_text)
qed

text \<open>
  The scenario of the specification: the text \<open>a I\<close> has two tokens, both too short.
  The engine keeps its single root node and an empty hash table, and the document
  counts two tokens.
\<close>

theorem short_tokens_skipped_but_counted_witness:
  "length (normalize_word (copy_word ''I'')) < 2 \<and>
   index_word create_search_engine ''I'' 0 = create_search_engine \<and>
   filter (\<lambda>t. \<not> length (normalize_word (copy_word t)) < 2) (strtok_all ''a I'') = [] \<and>
   node_count (fst (index_text create_search_engine ''d'' ''a I'')) = 1 \<and>
   get_document (fst (index_text create_search_engine ''d'' ''a I'')) 0 =
     Some \<lparr>id_doc = 0, filename = ''d'', word_count = 2\<rparr>"
proof -
  have short: "length (normalize_word (copy_word ''I'')) < 2"
    by code_simp
  have toks: "strtok_all ''a I'' = [''a'', ''I'']"
    by code_simp
  have none: "filter (\<lambda>t. \<not> length (normalize_word (copy_word t)) < 2) [''a'', ''I''] = []"
    by code_simp
  have skipped:
    "filter (\<lambda>t. \<not> length (normalize_word (copy_word t)) < 2) (strtok_all ''a I'') = []"
    by (simp only: toks none)
  note inst = short_tokens_skipped_but_counted
    [of "''I''" create_search_engine 0 "''d''" "''a I''"]
  have dc: "doc_count create_search_engine = 0"
    by (simp add: create_search_engine_def)
  have nc: "node_count create_search_engine = 1"
    by (simp add: create_search_engine_def)
  have len: "int (length (strtok_all ''a I'')) = 2"
    by (simp add: toks)
  have unchanged: "index_word create_search_engine ''I'' 0 = create_search_engine"
    using inst short by blast
  have nodes: "node_count (fst (index_text create_search_engine ''d'' ''a I'')) = 1"
    using inst by (simp add: skipped nc)
  have ret: "snd (index_text create_search_engine ''d'' ''a I'') = doc_count create_search_engine"
    using inst by blast
  have "get_document (fst (index_text create_search_engine ''d'' ''a I''))
          (snd (index_text create_search_engine ''d'' ''a I'')) =
        Some \<lparr>id_doc = doc_count create_search_engine, filename = ''d'',
               word_count = int (length (strtok_all ''a I''))\<rparr>"
    using inst by blast
  then have counted: "get_document (fst (index_text create_search_engine ''d'' ''a I'')) 0 =
     Some \<lparr>id_doc = 0, filename = ''d'', word_count = 2\<rparr>"
    by (simp only: ret dc len)
  show ?thesis
    using short unchanged skipped nodes counted by blast
qed

section \<open>C1: frequency accounting\<close>

text \<open>
  C1. In every reachable engine (the fresh one and any state after further
  \<^verbatim>\<open>index_text\<close> calls; queries leave the engine as it is), every allocated trie node has
  \<open>total_freq\<close> equal to the sum of the frequencies in its document chain; and whenever
  \<^verbatim>\<open>output_freq_result\<close> answers, the total it reports is the sum of the per-document
  frequencies it lists.
\<close>

theorem total_freq_is_sum_of_frequencies:
  assumes "reachable e"
  shows "(\<forall>a<node_count e.
            total_freq (trie_nodes e a) = sum_list (map frequency (doc_list (trie_nodes e a)))) \<and>
         (\<forall>w r. output_freq_result e w = Inr r \<longrightarrow>
            fr_total_freq r = sum_list (map (\<lambda>(i, name, f). f) (fr_documents r)))"
proof (intro conjI allI impI)
  have ok: "engine_ok e" using assms by (rule reachable_engine_ok)
  {
    fix a assume "a < node_count e"
    then have "node_ok (doc_count e) (trie_nodes e a)" using ok by (simp add: engine_ok_def)
    then show "total_freq (trie_nodes e a) = sum_list (map frequency (doc_list (trie_nodes e a)))"
      by (simp add: node_ok_def)
  }
  {
    fix w r assume r: "output_freq_result e w = Inr r"
    then obtain k where k: "normalize_query w = Inr k"
      by (cases "normalize_query w") (simp_all add: output_freq_result_def)
    show "fr_total_freq r = sum_list (map (\<lambda>(i, name, f). f) (fr_documents r))"
    proof (cases "hash_search e k")
      case None
      then have "r = \<lparr>fr_found = False, fr_total_freq = 0, fr_documents = []\<rparr>"
        using r k by (simp add: output_freq_result_def)
      then show ?thesis by simp
    next
      case (Some a)
      have "node_ok (doc_count e) (trie_nodes e a)" using engine_ok_lookup(2) [OF ok Some] .
      then have t: "total_freq (trie_nodes e a) = sum_list (map frequency (doc_list (trie_nodes e a)))"
        by (simp add: node_ok_def)
      have "r = \<lparr>fr_found = True, fr_total_freq = total_freq (trie_nodes e a),
                 fr_documents = map (\<lambda>doc. (doc_id doc, doc_filename e (doc_id doc) ''unknown'', frequency doc))
                        (doc_list (trie_nodes e a))\<rparr>"
        using r k Some by (simp add: output_freq_result_def)
      then show ?thesis using t by (simp add: comp_def)
    qed
  }
qed

theorem total_freq_is_sum_of_frequencies_witness:
  "reachable (fst (index_text create_search_engine ''d'' ''ab ab cd'')) \<and>
   2 < node_count (fst (index_text create_search_engine ''d'' ''ab ab cd'')) \<and>
   total_freq (trie_nodes (fst (index_text create_search_engine ''d'' ''ab ab cd'')) 2) =
     sum_list (map frequency (doc_list (trie_nodes (fst (index_text create_search_engine ''d'' ''ab ab cd'')) 2))) \<and>
   output_freq_result (fst (index_text create_search_engine ''d'' ''ab ab cd'')) ''ab'' =
     Inr \<lparr>fr_found = True, fr_total_freq = 2, fr_documents = [(0, ''d'', 2)]\<rparr> \<and>
   fr_total_freq \<lparr>fr_found = True, fr_total_freq = 2, fr_documents = [(0, ''d'', 2)]\<rparr> =
     sum_list (map (\<lambda>(i, name, f). f)
       (fr_documents \<lparr>fr_found = True, fr_total_freq = 2, fr_documents = [(0, ''d'', 2)]\<rparr>))"
proof -
  have r: "reachable (fst (index_text create_search_engine ''d'' ''ab ab cd''))"
    by (intro reachable.intros)
  have n: "2 < node_count (fst (index_text create_search_engine ''d'' ''ab ab cd''))"
    by code_simp
  have v: "output_freq_result (fst (index_text create_search_engine ''d'' ''ab ab cd'')) ''ab'' =
     Inr \<lparr>fr_found = True, fr_total_freq = 2, fr_documents = [(0, ''d'', 2)]\<rparr>"
    by code_simp
  note inst = total_freq_is_sum_of_frequencies [OF r]
  have a: "total_freq (trie_nodes (fst (index_text create_search_engine ''d'' ''ab ab cd'')) 2) =
     sum_list (map frequency (doc_list (trie_nodes (fst (index_text create_search_engine ''d'' ''ab ab cd'')) 2)))"
    using inst n by blast
  have b: "fr_total_freq \<lparr>fr_found = True, fr_total_freq = 2, fr_documents = [(0, ''d'', 2)]\<rparr> =
     sum_list (map (\<lambda>(i, name, f). f)
       (fr_documents \<lparr>fr_found = True, fr_total_freq = 2, fr_documents = [(0, ''d'', 2)]\<rparr>))"
    using inst v by blast
  show ?thesis using r n a v b by blast
qed

section \<open>C9: the hash table and the trie agree\<close>

lemma index_text_hash_search:
  assumes "engine_ok e"
  shows "w \<notin> set (doc_words (strtok_all text)) \<Longrightarrow>
           hash_search (fst (index_text e name text)) w = hash_search e w"
    and "w \<in> set (doc_words (strtok_all text)) \<Longrightarrow> hash_search (fst (index_text e name text)) w \<noteq> None"
proof -
  have ok': "engine_ok (fst (index_text e name text))" using assms by (rule index_text_effect(1))
  note occ = index_text_occurrences [OF assms, of name "text" w]
  show "w \<in> set (doc_words (strtok_all text)) \<Longrightarrow> hash_search (fst (index_text e name text)) w \<noteq> None"
  proof -
    assume "w \<in> set (doc_words (strtok_all text))"
    then have "count_list (doc_words (strtok_all text)) w \<noteq> 0" by (simp add: count_list_0_iff)
    then have "occurrences (fst (index_text e name text)) w \<noteq> []" using occ by simp
    then show ?thesis using engine_ok_occurrences(3) [OF ok', of w] by simp
  qed
  show "w \<notin> set (doc_words (strtok_all text)) \<Longrightarrow>
           hash_search (fst (index_text e name text)) w = hash_search e w"
  proof -
    assume nin: "w \<notin> set (doc_words (strtok_all text))"
    show ?thesis
    proof (cases "hash_search e w")
      case (Some a)
      then show ?thesis using index_text_effect(3) [OF assms Some, of name "text"] by simp
    next
      case None
      have "count_list (doc_words (strtok_all text)) w = 0" using nin by (simp add: count_list_0_iff)
      then have "occurrences (fst (index_text e name text)) w = occurrences e w" using occ by simp
      also have "\<dots> = []" using None by (simp add: occurrences_def)
      finally have "hash_search (fst (index_text e name text)) w = None"
        using engine_ok_occurrences(3) [OF ok', of w] by simp
      then show ?thesis using None by simp
    qed
  qed
qed

text \<open>
  C9. In every engine reachable by \<^verbatim>\<open>index_text\<close> calls and for every word,
  \<^verbatim>\<open>hash_search\<close> and \<^verbatim>\<open>trie_search\<close> give the same answer: the same node address,
  or \<^verbatim>\<open>NULL\<close> from both. A further \<^verbatim>\<open>index_text\<close> makes each word it inserts known,
  leaves every other word as it was, and never changes the node a known word is mapped to.
\<close>

theorem hash_search_agrees_with_trie_search:
  assumes "reachable e"
  shows "(\<forall>w. hash_search e w = trie_search (trie_nodes e) (trie_root e) w) \<and>
         (\<forall>w a name text. hash_search e w = Some a \<longrightarrow>
            hash_search (fst (index_text e name text)) w = Some a) \<and>
         (\<forall>w name text. w \<in> set (doc_words (strtok_all text)) \<longrightarrow>
            hash_search (fst (index_text e name text)) w \<noteq> None) \<and>
         (\<forall>w name text. w \<notin> set (doc_words (strtok_all text)) \<longrightarrow>
            hash_search (fst (index_text e name text)) w = hash_search e w)"
proof -
  have ok: "engine_ok e" using assms by (rule reachable_engine_ok)
  have 1: "\<forall>w. hash_search e w = trie_search (trie_nodes e) (trie_root e) w"
    using ok by (simp add: engine_ok_def)
  have 2: "\<forall>w a name text. hash_search e w = Some a \<longrightarrow>
            hash_search (fst (index_text e name text)) w = Some a"
    using index_text_effect(3) [OF ok] by blast
  have 3: "\<forall>w name text. w \<in> set (doc_words (strtok_all text)) \<longrightarrow>
            hash_search (fst (index_text e name text)) w \<noteq> None"
    using index_text_hash_search(2) [OF ok] by blast
  have 4: "\<forall>w name text. w \<notin> set (doc_words (strtok_all text)) \<longrightarrow>
            hash_search (fst (index_text e name text)) w = hash_search e w"
    using index_text_hash_search(1) [OF ok] by blast
  show ?thesis using 1 2 3 4 by blast
qed

theorem hash_search_agrees_with_trie_search_witness:
  "reachable (fst (index_text create_search_engine ''d'' ''ab cd'')) \<and>
   hash_search (fst (index_text create_search_engine ''d'' ''ab cd'')) ''cd'' = Some 4 \<and>
   trie_search (trie_nodes (fst (index_text create_search_engine ''d'' ''ab cd''))) 
     (trie_root (fst (index_text create_search_engine ''d'' ''ab cd''))) ''cd'' = Some 4 \<and>
   ''ab'' \<in> set (doc_words (strtok_all ''ab ab'')) \<and>
   hash_search (fst (index_text (fst (index_text create_search_engine ''d'' ''ab cd'')) ''e'' ''ab ab'')) ''cd'' = Some 4"
proof -
  have r: "reachable (fst (index_text create_search_engine ''d'' ''ab cd''))"
    by (intro reachable.intros)
  have v: "hash_search (fst (index_text create_search_engine ''d'' ''ab cd'')) ''cd'' = Some 4"
    by code_simp
  have m: "''ab'' \<in> set (doc_words (strtok_all ''ab ab''))"
    by code_simp
  note inst = hash_search_agrees_with_trie_search [OF r]
  have t: "trie_search (trie_nodes (fst (index_text create_search_engine ''d'' ''ab cd''))) 
     (trie_root (fst (index_text create_search_engine ''d'' ''ab cd''))) ''cd'' = Some 4"
    using inst v by metis
  have k: "hash_search (fst (index_text (fst (index_text create_search_engine ''d'' ''ab cd'')) ''e'' ''ab ab'')) ''cd'' = Some 4"
    using inst v by blast
  show ?thesis using r v t m k by blast
qed

section \<open>C8: term frequency\<close>

lemma counts_ok_index_text:
  assumes ok: "engine_ok e" and c: "counts_ok e"
  shows "counts_ok (fst (index_text e name text))"
  unfolding counts_ok_def
proof (intro allI ballI)
  fix w dn
  assume dn: "dn \<in> set (occurrences (fst (index_text e name text)) w)"
  let ?k = "count_list (doc_words (strtok_all text)) w"
  let ?new = "\<lparr>doc_id = doc_count e, frequency = int ?k\<rparr>"
  from dn have "dn \<in> set (occurrences e w) \<or> dn = ?new"
    unfolding index_text_occurrences [OF ok] by (auto split: if_splits)
  then show "\<exists>doc. get_document (fst (index_text e name text)) (doc_id dn) = Some doc \<and>
               frequency dn \<le> word_count doc"
  proof
    assume old: "dn \<in> set (occurrences e w)"
    then have "doc_id dn \<noteq> doc_count e" using engine_ok_occurrences(2) [OF ok, of w] by auto
    then show ?thesis using c old unfolding counts_ok_def get_document_after_index_text by simp
  next
    assume "dn = ?new"
    then show ?thesis
      unfolding get_document_after_index_text using count_doc_words_le [of "strtok_all text" w] by simp
  qed
qed

lemma counts_ok_create: "counts_ok create_search_engine"
  by (simp add: counts_ok_def occurrences_def hash_search_def create_search_engine_def)

lemma reachable_counts_ok: "reachable e \<Longrightarrow> counts_ok e"
proof (induction rule: reachable.induct)
  case fresh
  show ?case by (rule counts_ok_create)
next
  case (indexed e0 nm body)
  then show ?case using counts_ok_index_text [OF reachable_engine_ok] by blast
qed

lemma frequency_rows_total:
  "(\<forall>dn\<in>set l. \<exists>tf. term_frequency e dn = Inr tf) \<Longrightarrow> \<exists>rows. frequency_rows e l = Inr rows"
proof (induction l)
  case Nil
  show ?case by simp
next
  case (Cons dn l)
  then obtain tf rows where "term_frequency e dn = Inr tf" "frequency_rows e l = Inr rows" by auto
  then show ?case by simp
qed

lemma occurrence_has_tokens:
  assumes "reachable e" and "hash_search e w = Some a" and "dn \<in> set (doc_list (trie_nodes e a))"
  shows "\<exists>doc. get_document e (doc_id dn) = Some doc \<and> frequency dn \<le> word_count doc \<and>
           0 < word_count doc"
proof -
  have ok: "engine_ok e" using assms(1) by (rule reachable_engine_ok)
  have c: "counts_ok e" using assms(1) by (rule reachable_counts_ok)
  have occ: "dn \<in> set (occurrences e w)" using assms(2,3) by (simp add: occurrences_def)
  then obtain doc where doc: "get_document e (doc_id dn) = Some doc" "frequency dn \<le> word_count doc"
    using c unfolding counts_ok_def by blast
  have "1 \<le> frequency dn" using engine_ok_occurrences(2) [OF ok, of w] occ by blast
  then show ?thesis using doc by auto
qed

text \<open>
  C8. In every reachable engine, every document in the occurrence chain of a word is
  registered and has a nonzero \<open>word_count\<close> (at least the frequency of the word in it), so
  the quotient \<^verbatim>\<open>frequency / word_count\<close> of \<^verbatim>\<open>show_word_frequency\<close> is taken with a
  nonzero divisor, and the report never divides by zero.
\<close>

theorem term_frequency_divisor_nonzero:
  assumes "reachable e"
  shows "(\<forall>w. show_word_frequency e w \<noteq> Inl DivisionByZero) \<and>
         (\<forall>w a dn. hash_search e w = Some a \<longrightarrow> dn \<in> set (doc_list (trie_nodes e a)) \<longrightarrow>
            (\<exists>doc. get_document e (doc_id dn) = Some doc \<and> word_count doc \<noteq> 0 \<and>
                   term_frequency e dn = Inr (of_int (frequency dn) / of_int (word_count doc))))"
proof -
  have tf: "\<And>w a dn. hash_search e w = Some a \<Longrightarrow> dn \<in> set (doc_list (trie_nodes e a)) \<Longrightarrow>
            (\<exists>doc. get_document e (doc_id dn) = Some doc \<and> word_count doc \<noteq> 0 \<and>
                   term_frequency e dn = Inr (of_int (frequency dn) / of_int (word_count doc)))"
  proof -
    fix w a dn
    assume "hash_search e w = Some a" "dn \<in> set (doc_list (trie_nodes e a))"
    from occurrence_has_tokens [OF assms this] obtain doc where
      "get_document e (doc_id dn) = Some doc" "0 < word_count doc" by blast
    then show "\<exists>doc. get_document e (doc_id dn) = Some doc \<and> word_count doc \<noteq> 0 \<and>
                   term_frequency e dn = Inr (of_int (frequency dn) / of_int (word_count doc))"
      by (simp add: term_frequency_def)
  qed
  have "\<And>w. show_word_frequency e w \<noteq> Inl DivisionByZero"
  proof -
    fix w
    show "show_word_frequency e w \<noteq> Inl DivisionByZero"
    proof (cases "normalize_query w")
      case (Inl f)
      then have "f = UnterminatedString" by (simp add: normalize_query_def copy_query_def split: if_splits)
      then show ?thesis using Inl by (simp add: show_word_frequency_def)
    next
      case (Inr k)
      show ?thesis
      proof (cases "hash_search e k")
        case None
        then show ?thesis using Inr by (simp add: show_word_frequency_def)
      next
        case (Some a)
        have "\<forall>dn\<in>set (doc_list (trie_nodes e a)). \<exists>t. term_frequency e dn = Inr t"
          using tf [OF Some] by blast
        then obtain rows where "frequency_rows e (doc_list (trie_nodes e a)) = Inr rows"
          using frequency_rows_total by blast
        then show ?thesis using Inr Some by (simp add: show_word_frequency_def)
      qed
    qed
  qed
  then show ?thesis using tf by blast
qed

theorem term_frequency_divisor_nonzero_witness:
  "reachable (fst (index_text create_search_engine ''d'' ''ab ab cd'')) \<and>
   hash_search (fst (index_text create_search_engine ''d'' ''ab ab cd'')) ''ab'' = Some 2 \<and>
   \<lparr>doc_id = 0, frequency = 2\<rparr> \<in>
     set (doc_list (trie_nodes (fst (index_text create_search_engine ''d'' ''ab ab cd'')) 2)) \<and>
   show_word_frequency (fst (index_text create_search_engine ''d'' ''ab ab cd'')) ''ab'' \<noteq> Inl DivisionByZero \<and>
   (\<exists>doc. get_document (fst (index_text create_search_engine ''d'' ''ab ab cd'')) 0 = Some doc \<and>
          word_count doc \<noteq> 0)"
proof -
  have r: "reachable (fst (index_text create_search_engine ''d'' ''ab ab cd''))"
    by (intro reachable.intros)
  have h: "hash_search (fst (index_text create_search_engine ''d'' ''ab ab cd'')) ''ab'' = Some 2"
    by code_simp
  have m: "\<lparr>doc_id = 0, frequency = 2\<rparr> \<in>
     set (doc_list (trie_nodes (fst (index_text create_search_engine ''d'' ''ab ab cd'')) 2))"
    by code_simp
  note inst = term_frequency_divisor_nonzero [OF r]
  have d: "\<exists>doc. get_document (fst (index_text create_search_engine ''d'' ''ab ab cd''))
                  (doc_id \<lparr>doc_id = 0, frequency = 2\<rparr>) = Some doc \<and> word_count doc \<noteq> 0"
    using inst h m by blast
  then have d': "\<exists>doc. get_document (fst (index_text create_search_engine ''d'' ''ab ab cd'')) 0 = Some doc \<and>
          word_count doc \<noteq> 0" by simp
  show ?thesis using r h m inst d' by blast
qed

section \<open>C2: multi-keyword search\<close>

lemma accumulate_docs_result:
  assumes "\<forall>dn\<in>set l. 0 \<le> doc_id dn \<and> doc_id dn < int n"
    and "length scores = n" and "length matches = n"
  shows "accumulate_docs l scores matches =
           Inr (map (\<lambda>i. scores ! i + doc_frequency l (int i)) [0..<n],
                map (\<lambda>i. matches ! i + doc_hits l (int i)) [0..<n])"
  using assms
proof (induction l arbitrary: scores matches)
  case Nil
  have "map (\<lambda>i. scores ! i) [0..<n] = scores"
    unfolding Nil.prems(2) [symmetric] by (rule map_nth)
  moreover have "map (\<lambda>i. matches ! i) [0..<n] = matches"
    unfolding Nil.prems(3) [symmetric] by (rule map_nth)
  ultimately show ?case by (simp add: doc_frequency_def doc_hits_def)
next
  case (Cons dn l)
  define j where "j = nat (doc_id dn)"
  have j: "j < n" "int j = doc_id dn" "0 \<le> doc_id dn" using Cons.prems(1) by (auto simp: j_def)
  define scores1 where "scores1 = scores[j := scores ! j + frequency dn]"
  define matches1 where "matches1 = matches[j := matches ! j + 1]"
  have step: "accumulate_docs (dn # l) scores matches = accumulate_docs l scores1 matches1"
    using j Cons.prems(2,3) by (simp add: scores1_def matches1_def j_def)
  have rest: "\<forall>dn\<in>set l. 0 \<le> doc_id dn \<and> doc_id dn < int n" using Cons.prems(1) by simp
  have len: "length scores1 = n" "length matches1 = n"
    using Cons.prems(2,3) by (simp_all add: scores1_def matches1_def)
  have s: "map (\<lambda>i. scores1 ! i + doc_frequency l (int i)) [0..<n] =
           map (\<lambda>i. scores ! i + doc_frequency (dn # l) (int i)) [0..<n]"
  proof (rule map_cong [OF refl])
    fix i assume "i \<in> set [0..<n]"
    then have i: "i < length scores" using Cons.prems(2) by simp
    show "scores1 ! i + doc_frequency l (int i) = scores ! i + doc_frequency (dn # l) (int i)"
    proof (cases "i = j")
      case True
      then show ?thesis using i j(2) by (simp add: scores1_def doc_frequency_def)
    next
      case False
      then have "doc_id dn \<noteq> int i" using j(2) by auto
      then show ?thesis using i False by (simp add: scores1_def doc_frequency_def)
    qed
  qed
  have m: "map (\<lambda>i. matches1 ! i + doc_hits l (int i)) [0..<n] =
           map (\<lambda>i. matches ! i + doc_hits (dn # l) (int i)) [0..<n]"
  proof (rule map_cong [OF refl])
    fix i assume "i \<in> set [0..<n]"
    then have i: "i < length matches" using Cons.prems(3) by simp
    show "matches1 ! i + doc_hits l (int i) = matches ! i + doc_hits (dn # l) (int i)"
    proof (cases "i = j")
      case True
      then show ?thesis using i j(2) by (simp add: matches1_def doc_hits_def)
    next
      case False
      then have "doc_id dn \<noteq> int i" using j(2) by auto
      then show ?thesis using i False by (simp add: matches1_def doc_hits_def)
    qed
  qed
  show ?case unfolding step Cons.IH [OF rest len] s m ..
qed

lemma search_multi_loop_result:
  assumes ok: "engine_ok e" and n: "n = nat (doc_count e)"
    and "\<forall>w\<in>set ws. \<exists>k a. normalize_query w = Inr k \<and> hash_search e k = Some a"
    and "length scores = n" and "length matches = n"
  shows "search_multi_loop e cnt ws scores matches =
           Inr (Documents (display_matches e cnt
             (map (\<lambda>i. scores ! i + combined_score e ws (int i)) [0..<n])
             (map (\<lambda>i. matches ! i + match_count e ws (int i)) [0..<n])))"
  using assms(3-5)
proof (induction ws arbitrary: scores matches)
  case Nil
  have "map (\<lambda>i. scores ! i) [0..<n] = scores"
    unfolding Nil.prems(2) [symmetric] by (rule map_nth)
  moreover have "map (\<lambda>i. matches ! i) [0..<n] = matches"
    unfolding Nil.prems(3) [symmetric] by (rule map_nth)
  ultimately show ?case by (simp add: combined_score_def match_count_def)
next
  case (Cons w ws)
  from Cons.prems(1) obtain k a where k: "normalize_query w = Inr k" and a: "hash_search e k = Some a"
    by auto
  define l where "l = doc_list (trie_nodes e a)"
  have kd: "keyword_docs e w = l" using k a by (simp add: keyword_docs_def occurrences_def l_def)
  have "\<forall>dn\<in>set (occurrences e k). 0 \<le> doc_id dn \<and> doc_id dn < doc_count e \<and> 1 \<le> frequency dn"
    by (rule engine_ok_occurrences(2) [OF ok])
  then have rng: "\<forall>dn\<in>set l. 0 \<le> doc_id dn \<and> doc_id dn < int n"
    using a n by (auto simp: occurrences_def l_def)
  define scores1 where "scores1 = map (\<lambda>i. scores ! i + doc_frequency l (int i)) [0..<n]"
  define matches1 where "matches1 = map (\<lambda>i. matches ! i + doc_hits l (int i)) [0..<n]"
  have acc: "accumulate_docs l scores matches = Inr (scores1, matches1)"
    unfolding scores1_def matches1_def using rng Cons.prems(2,3) by (rule accumulate_docs_result)
  have len: "length scores1 = n" "length matches1 = n" by (simp_all add: scores1_def matches1_def)
  have rest: "\<forall>w\<in>set ws. \<exists>k a. normalize_query w = Inr k \<and> hash_search e k = Some a"
    using Cons.prems(1) by simp
  have step: "search_multi_loop e cnt (w # ws) scores matches = search_multi_loop e cnt ws scores1 matches1"
    using k a acc by (simp add: l_def)
  have s: "map (\<lambda>i. scores1 ! i + combined_score e ws (int i)) [0..<n] =
           map (\<lambda>i. scores ! i + combined_score e (w # ws) (int i)) [0..<n]"
    by (rule map_cong [OF refl]) (simp add: scores1_def combined_score_def kd)
  have m: "map (\<lambda>i. matches1 ! i + match_count e ws (int i)) [0..<n] =
           map (\<lambda>i. matches ! i + match_count e (w # ws) (int i)) [0..<n]"
    by (rule map_cong [OF refl]) (simp add: matches1_def match_count_def kd)
  show ?case unfolding step Cons.IH [OF rest len] s m ..
qed

lemma doc_hits_distinct:
  "distinct (map doc_id l) \<Longrightarrow> doc_hits l i = (if i \<in> doc_id ` set l then 1 else 0)"
proof (induction l)
  case Nil
  show ?case by (simp add: doc_hits_def)
next
  case (Cons dn l)
  then have IH: "doc_hits l i = (if i \<in> doc_id ` set l then 1 else 0)" by simp
  have "doc_id dn \<notin> doc_id ` set l" using Cons.prems by simp
  then show ?case using IH by (auto simp: doc_hits_def)
qed

lemma sum_indicators:
  fixes f :: "'a \<Rightarrow> int"
  assumes "\<forall>x\<in>set xs. f x = 0 \<or> f x = 1"
  shows "sum_list (map f xs) \<le> int (length xs) \<and>
         (sum_list (map f xs) = int (length xs) \<longleftrightarrow> (\<forall>x\<in>set xs. f x = 1))"
  using assms
proof (induction xs)
  case Nil
  show ?case by simp
next
  case (Cons x xs)
  then have IH: "sum_list (map f xs) \<le> int (length xs)"
    "sum_list (map f xs) = int (length xs) \<longleftrightarrow> (\<forall>x\<in>set xs. f x = 1)" by simp_all
  from Cons.prems have "f x = 0 \<or> f x = 1" by simp
  then show ?case
  proof
    assume "f x = 0"
    then show ?thesis using IH by auto
  next
    assume "f x = 1"
    then show ?thesis using IH by auto
  qed
qed

lemma match_count_all:
  assumes "engine_ok e"
  shows "match_count e ws i = int (length ws) \<longleftrightarrow>
           (\<forall>w\<in>set ws. i \<in> doc_id ` set (keyword_docs e w))"
proof -
  have d: "\<And>w. distinct (map doc_id (keyword_docs e w))"
    using engine_ok_occurrences(1) [OF assms] by (simp add: keyword_docs_def split: sum.split)
  have h: "\<And>w. doc_hits (keyword_docs e w) i = (if i \<in> doc_id ` set (keyword_docs e w) then 1 else 0)"
    using doc_hits_distinct [OF d] .
  have "\<forall>w\<in>set ws. doc_hits (keyword_docs e w) i = 0 \<or> doc_hits (keyword_docs e w) i = 1"
    using h by simp
  from sum_indicators [OF this]
  have "match_count e ws i = int (length ws) \<longleftrightarrow> (\<forall>w\<in>set ws. doc_hits (keyword_docs e w) i = 1)"
    by (simp add: match_count_def)
  also have "\<dots> \<longleftrightarrow> (\<forall>w\<in>set ws. i \<in> doc_id ` set (keyword_docs e w))"
    using h by simp
  finally show ?thesis .
qed

lemma search_multi_result:
  assumes ok: "engine_ok e"
    and found: "\<forall>w\<in>set ws. \<exists>k a. normalize_query w = Inr k \<and> hash_search e k = Some a"
  shows "search_multi e ws =
           Inr (Documents
             (map (\<lambda>i. (doc_filename e (int i) ''Unknown'', int i, combined_score e ws (int i)))
                (filter (\<lambda>i. \<forall>w\<in>set ws. int i \<in> doc_id ` set (keyword_docs e w))
                   [0..<nat (doc_count e)])))"
proof -
  define n where "n = nat (doc_count e)"
  have loop: "search_multi e ws =
      Inr (Documents (display_matches e (length ws)
             (map (\<lambda>i. replicate n 0 ! i + combined_score e ws (int i)) [0..<n])
             (map (\<lambda>i. replicate n 0 ! i + match_count e ws (int i)) [0..<n])))"
    unfolding search_multi_def n_def [symmetric]
    by (rule search_multi_loop_result [OF ok n_def found]) simp_all
  have s: "map (\<lambda>i. replicate n (0::int) ! i + combined_score e ws (int i)) [0..<n] =
        map (\<lambda>i. combined_score e ws (int i)) [0..<n]"
    by (rule map_cong [OF refl]) simp
  have m: "map (\<lambda>i. replicate n (0::int) ! i + match_count e ws (int i)) [0..<n] =
        map (\<lambda>i. match_count e ws (int i)) [0..<n]"
    by (rule map_cong [OF refl]) simp
  have f: "filter (\<lambda>i. map (\<lambda>i. match_count e ws (int i)) [0..<n] ! i = int (length ws)) [0..<n] =
        filter (\<lambda>i. \<forall>w\<in>set ws. int i \<in> doc_id ` set (keyword_docs e w)) [0..<n]"
    by (rule filter_cong [OF refl]) (simp add: match_count_all [OF ok])
  have r: "map (\<lambda>i. (doc_filename e (int i) ''Unknown'', int i,
                   map (\<lambda>i. combined_score e ws (int i)) [0..<n] ! i))
             (filter (\<lambda>i. \<forall>w\<in>set ws. int i \<in> doc_id ` set (keyword_docs e w)) [0..<n]) =
           map (\<lambda>i. (doc_filename e (int i) ''Unknown'', int i, combined_score e ws (int i)))
             (filter (\<lambda>i. \<forall>w\<in>set ws. int i \<in> doc_id ` set (keyword_docs e w)) [0..<n])"
    by (rule map_cong [OF refl]) simp
  show ?thesis
    unfolding loop s m display_matches_def n_def [symmetric] f r ..
qed


lemma registry_get_own:
  assumes "registry_ok e" and "d \<in> set (documents e)"
  shows "get_document e (id_doc d) = Some d"
proof -
  from assms(2) have "d \<in> set (rev (documents e))" by simp
  then obtain i where i: "i < length (rev (documents e))" "rev (documents e) ! i = d"
    unfolding in_set_conv_nth by blast
  then have i': "i < nat (doc_count e)" using registry_length [OF assms(1)] by simp
  show ?thesis using registry_get_document [OF assms(1) i'] registry_id [OF assms(1) i'] i(2) by simp
qed

lemma rows_by_document:
  assumes reg: "registry_ok e"
  shows "map (\<lambda>i. (doc_filename e (int i) ''Unknown'', int i, G (int i)))
           (filter (\<lambda>i. P (int i)) [0..<nat (doc_count e)]) =
         map (\<lambda>d. (filename d, id_doc d, G (id_doc d)))
           (filter (\<lambda>d. P (id_doc d)) (rev (documents e)))"
proof -
  have ids: "map id_doc (rev (documents e)) = map int [0..<nat (doc_count e)]"
    using reg by (simp add: registry_ok_def rev_map [symmetric])
  have "map (\<lambda>i. (doc_filename e (int i) ''Unknown'', int i, G (int i)))
           (filter (\<lambda>i. P (int i)) [0..<nat (doc_count e)]) =
        map (\<lambda>j. (doc_filename e j ''Unknown'', j, G j)) (filter P (map int [0..<nat (doc_count e)]))"
    by (simp add: filter_map comp_def)
  also have "\<dots> = map (\<lambda>j. (doc_filename e j ''Unknown'', j, G j)) (filter P (map id_doc (rev (documents e))))"
    by (simp only: ids)
  also have "\<dots> = map (\<lambda>d. (doc_filename e (id_doc d) ''Unknown'', id_doc d, G (id_doc d)))
                     (filter (\<lambda>d. P (id_doc d)) (rev (documents e)))"
    by (simp add: filter_map comp_def)
  also have "\<dots> = map (\<lambda>d. (filename d, id_doc d, G (id_doc d)))
                     (filter (\<lambda>d. P (id_doc d)) (rev (documents e)))"
  proof (rule map_cong [OF refl])
    fix d assume "d \<in> set (filter (\<lambda>d. P (id_doc d)) (rev (documents e)))"
    then have "d \<in> set (documents e)" by simp
    then show "(doc_filename e (id_doc d) ''Unknown'', id_doc d, G (id_doc d)) =
               (filename d, id_doc d, G (id_doc d))"
      using registry_get_own [OF reg] by (simp add: doc_filename_def)
  qed
  finally show ?thesis .
qed

lemma rows_ids_increasing:
  "sorted_wrt (<) (map (\<lambda>(name, i, score). i)
     (map (\<lambda>i. (F i, int i, G i)) (filter Q [0..<n])))"
proof -
  have "sorted_wrt (<) (filter Q [0..<n])" by (intro sorted_wrt_filter) (rule sorted_wrt_upt)
  then have "sorted_wrt (<) (map int (filter Q [0..<n]))" by (simp add: sorted_wrt_map)
  moreover have "map (\<lambda>(name, i, score). i) (map (\<lambda>i. (F i, int i, G i)) (filter Q [0..<n])) =
        map int (filter Q [0..<n])" by (simp add: comp_def)
  ultimately show ?thesis by (simp only:)
qed

text \<open>
  In every reachable engine, for a list of keywords each of which the lookup finds
  (the keyword is shorter than \<^verbatim>\<open>MAX_WORD_LEN - 1\<close> bytes, so that the buffer holds a
  string, and its normalized form has a hash entry), \<^verbatim>\<open>search_multi\<close> reports exactly
  the registered documents that occur in the occurrence chain of every keyword; these are
  the documents whose match count equals the number of keywords. Each row carries the sum
  of the document's frequencies over the keywords, and the rows come in increasing order
  of the document id.
\<close>

lemma search_multi_fitting_keywords:
  assumes "reachable e"
    and "\<forall>w\<in>set ws. \<exists>k a. normalize_query w = Inr k \<and> hash_search e k = Some a"
  shows "\<exists>rows. search_multi e ws = Inr (Documents rows) \<and>
           rows = map (\<lambda>d. (filename d, id_doc d, combined_score e ws (id_doc d)))
                    (filter (\<lambda>d. \<forall>w\<in>set ws. id_doc d \<in> doc_id ` set (keyword_docs e w))
                       (rev (documents e))) \<and>
           sorted_wrt (<) (map (\<lambda>(name, i, score). i) rows) \<and>
           (\<forall>i. match_count e ws i = int (length ws) \<longleftrightarrow>
                (\<forall>w\<in>set ws. i \<in> doc_id ` set (keyword_docs e w)))"
proof -
  have ok: "engine_ok e" using assms(1) by (rule reachable_engine_ok)
  have reg: "registry_ok e" using assms(1) by (rule reachable_registry_ok)
  define rows where "rows =
     map (\<lambda>i. (doc_filename e (int i) ''Unknown'', int i, combined_score e ws (int i)))
       (filter (\<lambda>i. \<forall>w\<in>set ws. int i \<in> doc_id ` set (keyword_docs e w)) [0..<nat (doc_count e)])"
  have 1: "search_multi e ws = Inr (Documents rows)"
    unfolding rows_def using ok assms(2) by (rule search_multi_result)
  have 2: "rows = map (\<lambda>d. (filename d, id_doc d, combined_score e ws (id_doc d)))
                    (filter (\<lambda>d. \<forall>w\<in>set ws. id_doc d \<in> doc_id ` set (keyword_docs e w))
                       (rev (documents e)))"
    unfolding rows_def
    using rows_by_document [OF reg, of "combined_score e ws"
        "\<lambda>i. \<forall>w\<in>set ws. i \<in> doc_id ` set (keyword_docs e w)"] .
  have 3: "sorted_wrt (<) (map (\<lambda>(name, i, score). i) rows)"
    unfolding rows_def by (rule rows_ids_increasing)
  have 4: "\<forall>i. match_count e ws i = int (length ws) \<longleftrightarrow>
                (\<forall>w\<in>set ws. i \<in> doc_id ` set (keyword_docs e w))"
    using match_count_all [OF ok] by blast
  show ?thesis using 1 2 3 4 by blast
qed

lemma search_multi_fitting_keywords_example:
  "reachable (fst (index_text (fst (index_text create_search_engine ''d0'' ''ab cd ab'')) ''d1'' ''ab'')) \<and>
   normalize_query ''ab'' = Inr ''ab'' \<and> normalize_query ''Cd!'' = Inr ''cd'' \<and>
   hash_search (fst (index_text (fst (index_text create_search_engine ''d0'' ''ab cd ab'')) ''d1'' ''ab'')) ''ab'' = Some 2 \<and>
   hash_search (fst (index_text (fst (index_text create_search_engine ''d0'' ''ab cd ab'')) ''d1'' ''ab'')) ''cd'' = Some 4 \<and>
   search_multi (fst (index_text (fst (index_text create_search_engine ''d0'' ''ab cd ab'')) ''d1'' ''ab''))
      [''ab'', ''Cd!''] = Inr (Documents [(''d0'', 0, 3)]) \<and>
   sorted_wrt (<) (map (\<lambda>(name, i, score). i) [(''d0'', 0::int, 3::int)])"
proof -
  define e where "e = fst (index_text (fst (index_text create_search_engine ''d0'' ''ab cd ab'')) ''d1'' ''ab'')"
  have r: "reachable e" unfolding e_def by (intro reachable.intros)
  have n1: "normalize_query ''ab'' = Inr ''ab''" by code_simp
  have n2: "normalize_query ''Cd!'' = Inr ''cd''" by code_simp
  have h1: "hash_search e ''ab'' = Some 2" unfolding e_def by code_simp
  have h2: "hash_search e ''cd'' = Some 4" unfolding e_def by code_simp
  have found: "\<forall>w\<in>set [''ab'', ''Cd!'']. \<exists>k a. normalize_query w = Inr k \<and> hash_search e k = Some a"
    using n1 n2 h1 h2 by simp
  have v: "search_multi e [''ab'', ''Cd!''] = Inr (Documents [(''d0'', 0, 3)])"
    unfolding e_def by code_simp
  from search_multi_fitting_keywords [OF r found] obtain rows where
    rows: "search_multi e [''ab'', ''Cd!''] = Inr (Documents rows)"
      "sorted_wrt (<) (map (\<lambda>(name, i, score). i) rows)" by blast
  have "rows = [(''d0'', 0, 3)]" using rows(1) v by simp
  then have s: "sorted_wrt (<) (map (\<lambda>(name, i, score). i) [(''d0'', 0::int, 3::int)])"
    using rows(2) by simp
  show ?thesis using r n1 n2 h1 h2 v s unfolding e_def by blast
qed

text \<open>
  C2 fails on the code for a keyword of 99 bytes or more that is present in the lookup
  index: \<^verbatim>\<open>search_multi\<close> copies each keyword with
  \<^verbatim>\<open>strncpy(normalized, keywords[i], MAX_WORD_LEN - 1)\<close> and stores no NUL behind it.
  After indexing the text \<open>ab\<close> as document 0, the keyword \<open>ab\<close> followed by 97
  exclamation marks has 99 bytes, its normalized form \<open>ab\<close> has a hash entry and document
  0 contains it once; the answer is a fault, not the row of document 0, also behind the
  keyword \<open>ab\<close> itself. The keyword \<open>ab\<close> alone gives the row with score 1.
\<close>

theorem search_multi_overlong_present_keyword_faults:
  "length (''ab'' @ replicate 97 (CHR ''!'')) = 99 \<and>
   normalize_word (''ab'' @ replicate 97 (CHR ''!'')) = ''ab'' \<and>
   hash_search (fst (index_text create_search_engine ''d'' ''ab''))
     (normalize_word (''ab'' @ replicate 97 (CHR ''!''))) = Some 2 \<and>
   map (\<lambda>dn. (doc_id dn, frequency dn))
     (doc_list (trie_nodes (fst (index_text create_search_engine ''d'' ''ab'')) 2)) = [(0, 1)] \<and>
   search_multi (fst (index_text create_search_engine ''d'' ''ab''))
     [''ab'' @ replicate 97 (CHR ''!'')] = Inl UnterminatedString \<and>
   search_multi (fst (index_text create_search_engine ''d'' ''ab''))
     [''ab'', ''ab'' @ replicate 97 (CHR ''!'')] = Inl UnterminatedString \<and>
   search_multi (fst (index_text create_search_engine ''d'' ''ab'')) [''ab''] =
     Inr (Documents [(''d'', 0, 1)])"
  by code_simp

section \<open>Empty keyword list\<close>

lemma display_matches_none:
  "display_matches e 0 (replicate n 0) (replicate n 0) =
     map (\<lambda>i. (doc_filename e (int i) ''Unknown'', int i, 0)) [0..<n]" if "n = nat (doc_count e)"
proof -
  have "filter (\<lambda>i. replicate n (0::int) ! i = int 0) [0..<n] = [0..<n]"
    by (rule filter_True) simp
  moreover have "map (\<lambda>i. (doc_filename e (int i) ''Unknown'', int i, replicate n (0::int) ! i)) [0..<n] =
       map (\<lambda>i. (doc_filename e (int i) ''Unknown'', int i, 0)) [0..<n]"
    by (rule map_cong) simp_all
  ultimately show ?thesis using that by (simp add: display_matches_def)
qed

lemma search_multi_empty_any:
  "search_multi e [] =
     Inr (Documents (map (\<lambda>i. (doc_filename e (int i) ''Unknown'', int i, 0)) [0..<nat (doc_count e)]))"
  by (simp add: search_multi_def display_matches_none)

text \<open>
  C10. With an empty keyword list \<^verbatim>\<open>search_multi\<close> reports every indexed document, in
  the order of their ids, each with score 0: the match count 0 of every document equals
  the number of keywords.
\<close>

theorem search_multi_empty_all_documents:
  assumes "reachable e"
  shows "search_multi e [] = Inr (Documents (map (\<lambda>d. (filename d, id_doc d, 0)) (rev (documents e))))"
proof -
  have reg: "registry_ok e" using assms by (rule reachable_registry_ok)
  have "map (\<lambda>i. (doc_filename e (int i) ''Unknown'', int i, 0::int)) [0..<nat (doc_count e)] =
        map (\<lambda>d. (filename d, id_doc d, 0)) (rev (documents e))"
  proof (rule nth_equalityI)
    show "length (map (\<lambda>i. (doc_filename e (int i) ''Unknown'', int i, 0::int)) [0..<nat (doc_count e)]) =
          length (map (\<lambda>d. (filename d, id_doc d, 0::int)) (rev (documents e)))"
      using registry_length [OF reg] by simp
  next
    fix i
    assume "i < length (map (\<lambda>i. (doc_filename e (int i) ''Unknown'', int i, 0::int)) [0..<nat (doc_count e)])"
    then have i: "i < nat (doc_count e)" by simp
    then show "map (\<lambda>i. (doc_filename e (int i) ''Unknown'', int i, 0::int)) [0..<nat (doc_count e)] ! i =
          map (\<lambda>d. (filename d, id_doc d, 0)) (rev (documents e)) ! i"
      using registry_get_document [OF reg i] registry_id [OF reg i] registry_length [OF reg]
      by (simp add: doc_filename_def)
  qed
  then show ?thesis by (simp add: search_multi_empty_any)
qed

theorem search_multi_empty_all_documents_witness:
  "reachable (fst (index_text create_search_engine ''d'' ''ab'')) \<and>
   search_multi (fst (index_text create_search_engine ''d'' ''ab'')) [] =
     Inr (Documents (map (\<lambda>d. (filename d, id_doc d, 0))
       (rev (documents (fst (index_text create_search_engine ''d'' ''ab''))))))"
proof -
  have r: "reachable (fst (index_text create_search_engine ''d'' ''ab''))"
    by (intro reachable.intros)
  show ?thesis
    using r search_multi_empty_all_documents [OF r] by blast
qed

section \<open>C6: word frequency of unknown and known words\<close>

lemma normalize_query_fits:
  "length w < MAX_WORD_LEN - 1 \<Longrightarrow> normalize_query w = Inr (normalize_word w)"
  by (simp add: normalize_query_def copy_query_def)

lemma normalize_query_overlong:
  "\<not> length w < MAX_WORD_LEN - 1 \<Longrightarrow> normalize_query w = Inl UnterminatedString"
  by (simp add: normalize_query_def copy_query_def)


text \<open>
  For a query word that fits the buffer the answers are as specified: not found, total 0
  and no documents for a word without hash entry (whatever its length after normalization),
  and the node's total with one row per chain entry otherwise.
\<close>

lemma word_frequency_fitting_query:
  assumes "length w < MAX_WORD_LEN - 1"
  shows "hash_search e (normalize_word w) = None \<Longrightarrow>
           output_freq_result e w = Inr \<lparr>fr_found = False, fr_total_freq = 0, fr_documents = []\<rparr> \<and>
           show_word_frequency e w = Inr WordNotFound"
    and "hash_search e (normalize_word w) = Some a \<Longrightarrow>
           output_freq_result e w =
             Inr \<lparr>fr_found = True, fr_total_freq = total_freq (trie_nodes e a),
                  fr_documents = map (\<lambda>dn. (doc_id dn, doc_filename e (doc_id dn) ''unknown'', frequency dn))
                                   (doc_list (trie_nodes e a))\<rparr>"
  using normalize_query_fits [OF assms]
  by (simp_all add: output_freq_result_def show_word_frequency_def)

text \<open>
  C6 fails on the code for a query word of 99 bytes or more. \<^verbatim>\<open>output_freq_result\<close> and
  \<^verbatim>\<open>show_word_frequency\<close> fill the buffer with \<^verbatim>\<open>strncpy(normalized, word, MAX_WORD_LEN - 1)\<close>
  and, unlike \<^verbatim>\<open>index_word\<close>, store no NUL behind it, so \<^verbatim>\<open>normalize_word\<close> reads an
  unterminated buffer. On the fresh engine, where every word is unknown, a 99-byte query
  faults, while a short unknown word gets the specified answer.
\<close>

theorem word_frequency_overlong_query_faults:
  "output_freq_result create_search_engine (replicate 99 (CHR ''z'')) = Inl UnterminatedString \<and>
   show_word_frequency create_search_engine (replicate 99 (CHR ''z'')) = Inl UnterminatedString \<and>
   hash_search create_search_engine (normalize_word (replicate 99 (CHR ''z''))) = None \<and>
   output_freq_result create_search_engine ''python'' =
     Inr \<lparr>fr_found = False, fr_total_freq = 0, fr_documents = []\<rparr>"
  by code_simp

section \<open>C3: a keyword without hash entry\<close>

lemma search_multi_loop_unknown:
  assumes ok: "engine_ok e" and n: "n = nat (doc_count e)"
    and "\<forall>w\<in>set ws. length w < MAX_WORD_LEN - 1"
    and "\<exists>w\<in>set ws. hash_search e (normalize_word w) = None"
    and "length scores = n" and "length matches = n"
  shows "\<exists>w\<in>set ws. hash_search e (normalize_word w) = None \<and>
           search_multi_loop e cnt ws scores matches = Inr (KeywordNotFound (normalize_word w))"
  using assms(3-6)
proof (induction ws arbitrary: scores matches)
  case Nil
  then show ?case by simp
next
  case (Cons w ws)
  have k: "normalize_query w = Inr (normalize_word w)"
    using Cons.prems(1) by (simp add: normalize_query_fits)
  show ?case
  proof (cases "hash_search e (normalize_word w)")
    case None
    then show ?thesis using k by simp
  next
    case (Some a)
    define l where "l = doc_list (trie_nodes e a)"
    have "\<forall>dn\<in>set (occurrences e (normalize_word w)).
            0 \<le> doc_id dn \<and> doc_id dn < doc_count e \<and> 1 \<le> frequency dn"
      by (rule engine_ok_occurrences(2) [OF ok])
    then have rng: "\<forall>dn\<in>set l. 0 \<le> doc_id dn \<and> doc_id dn < int n"
      using Some n by (auto simp: occurrences_def l_def)
    define scores1 where "scores1 = map (\<lambda>i. scores ! i + doc_frequency l (int i)) [0..<n]"
    define matches1 where "matches1 = map (\<lambda>i. matches ! i + doc_hits l (int i)) [0..<n]"
    have acc: "accumulate_docs l scores matches = Inr (scores1, matches1)"
      unfolding scores1_def matches1_def using rng Cons.prems(3,4) by (rule accumulate_docs_result)
    have len: "length scores1 = n" "length matches1 = n" by (simp_all add: scores1_def matches1_def)
    have step: "search_multi_loop e cnt (w # ws) scores matches = search_multi_loop e cnt ws scores1 matches1"
      using k Some acc by (simp add: l_def)
    have short: "\<forall>w\<in>set ws. length w < MAX_WORD_LEN - 1" using Cons.prems(1) by simp
    have unk: "\<exists>w\<in>set ws. hash_search e (normalize_word w) = None" using Cons.prems(2) Some by auto
    from Cons.IH [OF short unk len] show ?thesis unfolding step by auto
  qed
qed

text \<open>
  When every keyword fits the buffer, one keyword without hash entry makes
  \<^verbatim>\<open>search_multi\<close> return at the first such keyword, with no document row.
\<close>

lemma search_multi_unknown_keyword:
  assumes "reachable e" and "\<forall>w\<in>set ws. length w < MAX_WORD_LEN - 1"
    and "\<exists>w\<in>set ws. hash_search e (normalize_word w) = None"
  shows "\<exists>k. search_multi e ws = Inr (KeywordNotFound k) \<and> hash_search e k = None \<and>
           result_rows (KeywordNotFound k) = []"
proof -
  have ok: "engine_ok e" using assms(1) by (rule reachable_engine_ok)
  from search_multi_loop_unknown [OF ok refl assms(2,3), of "replicate (nat (doc_count e)) 0"
      "replicate (nat (doc_count e)) 0" "length ws"]
  show ?thesis unfolding search_multi_def by auto
qed

text \<open>
  C3 fails on the code for a keyword of 99 bytes or more: \<^verbatim>\<open>search_multi\<close> copies each
  keyword with \<^verbatim>\<open>strncpy(normalized, keywords[i], MAX_WORD_LEN - 1)\<close> and stores no NUL
  behind it. After indexing the text \<open>ab\<close>, the unknown 99-byte keyword faults instead of
  giving the empty answer, also behind a known keyword; a short unknown keyword gives it.
\<close>

theorem search_multi_overlong_keyword_faults:
  "search_multi (fst (index_text create_search_engine ''d'' ''ab'')) [replicate 99 (CHR ''z'')] =
     Inl UnterminatedString \<and>
   search_multi (fst (index_text create_search_engine ''d'' ''ab'')) [''ab'', replicate 99 (CHR ''z'')] =
     Inl UnterminatedString \<and>
   hash_search (fst (index_text create_search_engine ''d'' ''ab'')) (normalize_word (replicate 99 (CHR ''z''))) = None \<and>
   search_multi (fst (index_text create_search_engine ''d'' ''ab'')) [''ab'', ''python''] =
     Inr (KeywordNotFound ''python'')"
  by code_simp

section \<open>C7: the order of two documents\<close>

lemma doc_count_index_text [simp]: "doc_count (fst (index_text e name text)) = doc_count e + 1"
  by (simp add: index_text_fst add_document_def)

lemma occurrences_create [simp]: "occurrences create_search_engine w = []"
  by (simp add: occurrences_def hash_search_def create_search_engine_def)






section \<open>C4: prefix search\<close>

subsection \<open>Characters and indices\<close>

lemma index_char_ok: "i < ALPHABET_SIZE \<Longrightarrow> idx_ok (index_char i) \<and> idxn (index_char i) = i"
  by (simp add: index_char_def idx_ok_def idxn_def char_idx_def)

lemma index_char_idxn: "idx_ok c \<Longrightarrow> index_char (idxn c) = c"
proof -
  assume ok: "idx_ok c"
  then have "97 \<le> (of_char c :: nat)" "(of_char c :: nat) < 123"
    unfolding idx_ok_def char_idx_def by auto
  then have "97 + nat (int (of_char c) - 97) = (of_char c :: nat)" by simp
  then show ?thesis by (simp add: index_char_def idxn_def char_idx_def)
qed

lemma index_char_less: "i < j \<Longrightarrow> j < ALPHABET_SIZE \<Longrightarrow> index_char i < index_char j"
  by (simp add: index_char_def less_char_def)

lemma collect_uses_index_char:
  "collect_prefix_words (Suc room) h node pfx results =
     (if length results \<ge> MAX_RESULTS then Inr results
      else scan_children
             (\<lambda>i c res. collect_prefix_words room h c (pfx @ [index_char i]) res)
             (\<lambda>res. length res < MAX_RESULTS) (children (h node)) [0..<ALPHABET_SIZE]
             (if is_end (h node) then results @ [(pfx, total_freq (h node))] else results))"
  by (simp add: index_char_def)

lemma helper_uses_index_char:
  "trie_prefix_helper (Suc room) h node pfx out =
     scan_children
       (\<lambda>i c res. trie_prefix_helper room h c (pfx @ [index_char i]) res)
       (\<lambda>res. True) (children (h node)) [0..<ALPHABET_SIZE]
       (if is_end (h node) then out @ [(pfx, total_freq (h node))] else out)"
  by (simp add: index_char_def)

subsection \<open>Descents by steps\<close>

lemma trie_descend_append:
  "trie_descend h a (u @ v) =
     (case trie_descend h a u of None \<Rightarrow> None | Some b \<Rightarrow> trie_descend h b v)"
  by (induction u arbitrary: a) (simp_all split: option.split)

lemma trie_descend_Cons_Some:
  "trie_descend h a (c # s) = Some b \<longleftrightarrow>
     idx_ok c \<and> (\<exists>c'. children (h a) (idxn c) = Some c' \<and> trie_descend h c' s = Some b)"
  by (auto simp: idxn_def split: option.splits)

lemma fits_child:
  assumes "fits (Suc room) h a" and "i < ALPHABET_SIZE" and "children (h a) i = Some c"
  shows "fits room h c"
  unfolding fits_def
proof (intro allI impI)
  fix s b assume "trie_descend h c s = Some b"
  then have "idx_ok (index_char i) \<and>
      (\<exists>c'. children (h a) (idxn (index_char i)) = Some c' \<and> trie_descend h c' s = Some b)"
    using assms(3) index_char_ok [OF assms(2)] by simp
  then have "trie_descend h a (index_char i # s) = Some b"
    by (rule trie_descend_Cons_Some [THEN iffD2])
  then have "length (index_char i # s) < Suc room" using assms(1) unfolding fits_def by blast
  then show "length s < room" by simp
qed

lemma fits_0: "\<not> fits 0 h a"
  unfolding fits_def by (auto intro: exI [of _ "[]"])

subsection \<open>Both traversals follow the listing\<close>

lemma scan_children_all:
  assumes "\<And>i c res. i \<in> set js \<Longrightarrow> ch i = Some c \<Longrightarrow> visit i c res = Inr (res @ W i c)"
  shows "scan_children visit (\<lambda>res. True) ch js res =
           Inr (res @ concat (map (\<lambda>i. case ch i of None \<Rightarrow> [] | Some c \<Rightarrow> W i c) js))"
  using assms
proof (induction js arbitrary: res)
  case Nil
  show ?case by simp
next
  case (Cons i js)
  show ?case
  proof (cases "ch i")
    case None
    then show ?thesis using Cons.IH [of res] Cons.prems by simp
  next
    case (Some c)
    have "visit i c res = Inr (res @ W i c)" using Cons.prems Some by simp
    then show ?thesis using Some Cons.IH [of "res @ W i c"] Cons.prems by simp
  qed
qed

lemma take_take_append: "take n (take n xs @ ys) = take n (xs @ ys)"
  by (induction xs arbitrary: n) (auto simp: take_Cons split: nat.split)

lemma scan_children_capped:
  assumes "\<And>i c res. i \<in> set js \<Longrightarrow> ch i = Some c \<Longrightarrow> length res \<le> MAX_RESULTS \<Longrightarrow>
             visit i c res = Inr (take MAX_RESULTS (res @ W i c))"
    and "length res \<le> MAX_RESULTS"
  shows "scan_children visit (\<lambda>res. length res < MAX_RESULTS) ch js res =
           Inr (take MAX_RESULTS
                  (res @ concat (map (\<lambda>i. case ch i of None \<Rightarrow> [] | Some c \<Rightarrow> W i c) js)))"
  using assms
proof (induction js arbitrary: res)
  case Nil
  then show ?case by simp
next
  case (Cons i js)
  show ?case
  proof (cases "length res < MAX_RESULTS")
    case False
    then have "length res = MAX_RESULTS" using Cons.prems(2) by simp
    then show ?thesis by simp
  next
    case True
    show ?thesis
    proof (cases "ch i")
      case None
      then show ?thesis using True Cons.IH [of res] Cons.prems by simp
    next
      case (Some c)
      define res' where "res' = take MAX_RESULTS (res @ W i c)"
      have v: "visit i c res = Inr res'" using Cons.prems Some by (simp add: res'_def)
      have len: "length res' \<le> MAX_RESULTS" by (simp add: res'_def)
      let ?rest = "concat (map (\<lambda>i. case ch i of None \<Rightarrow> [] | Some c \<Rightarrow> W i c) js)"
      have "scan_children visit (\<lambda>res. length res < MAX_RESULTS) ch (i # js) res =
            scan_children visit (\<lambda>res. length res < MAX_RESULTS) ch js res'"
        using True Some v by simp
      also have "\<dots> = Inr (take MAX_RESULTS (res' @ ?rest))"
        using Cons.IH [of res'] Cons.prems(1) len by simp
      also have "take MAX_RESULTS (res' @ ?rest) = take MAX_RESULTS ((res @ W i c) @ ?rest)"
        unfolding res'_def by (rule take_take_append)
      also have "(res @ W i c) @ ?rest =
          res @ concat (map (\<lambda>i. case ch i of None \<Rightarrow> [] | Some c \<Rightarrow> W i c) (i # js))"
        using Some by simp
      finally show ?thesis .
    qed
  qed
qed

lemma trie_prefix_helper_listing:
  "fits room h a \<Longrightarrow> trie_prefix_helper room h a pfx out = Inr (out @ subtree_words room h a pfx)"
proof (induction room arbitrary: a pfx out)
  case 0
  then show ?case by (simp add: fits_0)
next
  case (Suc room)
  have visit: "\<And>i c res. i \<in> set [0..<ALPHABET_SIZE] \<Longrightarrow> children (h a) i = Some c \<Longrightarrow>
      trie_prefix_helper room h c (pfx @ [index_char i]) res =
        Inr (res @ subtree_words room h c (pfx @ [index_char i]))"
    using Suc.IH fits_child [OF Suc.prems] by simp
  show ?case
    unfolding helper_uses_index_char
    using scan_children_all [of "[0..<ALPHABET_SIZE]" "children (h a)"
        "\<lambda>i c res. trie_prefix_helper room h c (pfx @ [index_char i]) res"
        "\<lambda>i c. subtree_words room h c (pfx @ [index_char i])", OF visit]
    by simp
qed

lemma collect_prefix_words_listing:
  "fits room h a \<Longrightarrow> length res \<le> MAX_RESULTS \<Longrightarrow>
     collect_prefix_words room h a pfx res = Inr (take MAX_RESULTS (res @ subtree_words room h a pfx))"
proof (induction room arbitrary: a pfx res)
  case 0
  then show ?case by (simp add: fits_0)
next
  case (Suc room)
  have visit: "\<And>i c res. i \<in> set [0..<ALPHABET_SIZE] \<Longrightarrow> children (h a) i = Some c \<Longrightarrow>
      length res \<le> MAX_RESULTS \<Longrightarrow>
      collect_prefix_words room h c (pfx @ [index_char i]) res =
        Inr (take MAX_RESULTS (res @ subtree_words room h c (pfx @ [index_char i])))"
    using Suc.IH fits_child [OF Suc.prems(1)] by simp
  show ?case
  proof (cases "length res < MAX_RESULTS")
    case False
    then have "length res = MAX_RESULTS" using Suc.prems(2) by simp
    then show ?thesis unfolding collect_uses_index_char by simp
  next
    case True
    define res1 where "res1 = (if is_end (h a) then res @ [(pfx, total_freq (h a))] else res)"
    have len1: "length res1 \<le> MAX_RESULTS" using True by (simp add: res1_def)
    have "collect_prefix_words (Suc room) h a pfx res =
          scan_children (\<lambda>i c res. collect_prefix_words room h c (pfx @ [index_char i]) res)
             (\<lambda>res. length res < MAX_RESULTS) (children (h a)) [0..<ALPHABET_SIZE] res1"
      unfolding collect_uses_index_char res1_def using True by simp
    also have "\<dots> = Inr (take MAX_RESULTS (res1 @ concat (map (\<lambda>i. case children (h a) i of
                          None \<Rightarrow> []
                        | Some c \<Rightarrow> subtree_words room h c (pfx @ [index_char i]))
               [0..<ALPHABET_SIZE])))"
      using scan_children_capped [of "[0..<ALPHABET_SIZE]" "children (h a)"
        "\<lambda>i c res. collect_prefix_words room h c (pfx @ [index_char i]) res"
        "\<lambda>i c. subtree_words room h c (pfx @ [index_char i])" res1, OF visit len1]
      by simp
    also have "\<dots> = Inr (take MAX_RESULTS (res @ subtree_words (Suc room) h a pfx))"
      by (simp add: res1_def)
    finally show ?thesis .
  qed
qed


subsection \<open>What the listing holds\<close>

lemma in_blocks_iff:
  "x \<in> set (concat (map (\<lambda>i. case ch i of None \<Rightarrow> [] | Some c \<Rightarrow> W i c) js)) \<longleftrightarrow>
     (\<exists>i\<in>set js. \<exists>c. ch i = Some c \<and> x \<in> set (W i c))"
  by (induction js) (auto split: option.splits)

lemma in_subtree_words_Suc:
  "x \<in> set (subtree_words (Suc room) h a pfx) \<longleftrightarrow>
     (is_end (h a) \<and> x = (pfx, total_freq (h a))) \<or>
     (\<exists>i<ALPHABET_SIZE. \<exists>c. children (h a) i = Some c \<and>
         x \<in> set (subtree_words room h c (pfx @ [index_char i])))"
proof -
  have "(\<exists>i\<in>set [0..<ALPHABET_SIZE]. \<exists>c. children (h a) i = Some c \<and>
         x \<in> set (subtree_words room h c (pfx @ [index_char i]))) \<longleftrightarrow>
        (\<exists>i<ALPHABET_SIZE. \<exists>c. children (h a) i = Some c \<and>
         x \<in> set (subtree_words room h c (pfx @ [index_char i])))"
    unfolding set_upt by auto
  moreover have "x \<in> set (if is_end (h a) then [(pfx, total_freq (h a))] else []) \<longleftrightarrow>
      is_end (h a) \<and> x = (pfx, total_freq (h a))"
    by auto
  ultimately show ?thesis
    unfolding subtree_words.simps set_append Un_iff in_blocks_iff by (simp only:)
qed

lemma subtree_words_sound:
  "(w, f) \<in> set (subtree_words room h a pfx) \<Longrightarrow>
     \<exists>s b. w = pfx @ s \<and> trie_descend h a s = Some b \<and> is_end (h b) \<and> f = total_freq (h b)"
proof (induction room arbitrary: a pfx)
  case 0
  then show ?case by simp
next
  case (Suc room)
  from Suc.prems consider
    (here) "is_end (h a)" "w = pfx" "f = total_freq (h a)"
  | (below) i c where "i < ALPHABET_SIZE" "children (h a) i = Some c"
      "(w, f) \<in> set (subtree_words room h c (pfx @ [index_char i]))"
    unfolding in_subtree_words_Suc by blast
  then show ?case
  proof cases
    case here
    then have "w = pfx @ [] \<and> trie_descend h a [] = Some a \<and> is_end (h a) \<and> f = total_freq (h a)"
      by simp
    then show ?thesis by blast
  next
    case below
    from Suc.IH [OF below(3)] obtain s b where
      sb: "w = (pfx @ [index_char i]) @ s" "trie_descend h c s = Some b" "is_end (h b)"
        "f = total_freq (h b)" by blast
    have "idx_ok (index_char i) \<and>
      (\<exists>c'. children (h a) (idxn (index_char i)) = Some c' \<and> trie_descend h c' s = Some b)"
      using below(2) sb(2) index_char_ok [OF below(1)] by simp
    then have "trie_descend h a (index_char i # s) = Some b"
      by (rule trie_descend_Cons_Some [THEN iffD2])
    then have "w = pfx @ (index_char i # s) \<and> trie_descend h a (index_char i # s) = Some b \<and>
        is_end (h b) \<and> f = total_freq (h b)"
      using sb by simp
    then show ?thesis by blast
  qed
qed

lemma subtree_words_complete:
  "fits room h a \<Longrightarrow> trie_descend h a s = Some b \<Longrightarrow> is_end (h b) \<Longrightarrow>
     (pfx @ s, total_freq (h b)) \<in> set (subtree_words room h a pfx)"
proof (induction room arbitrary: a pfx s)
  case 0
  then show ?case by (simp add: fits_0)
next
  case (Suc room)
  show ?case
  proof (cases s)
    case Nil
    then show ?thesis using Suc.prems(2,3) by simp
  next
    case (Cons c s')
    from Suc.prems(2) [unfolded Cons trie_descend_Cons_Some] obtain c' where
      okc: "idx_ok c" and e: "children (h a) (idxn c) = Some c'" and d: "trie_descend h c' s' = Some b"
      by blast
    have i: "idxn c < ALPHABET_SIZE" using okc by (rule idx_ok_idxn)
    have f: "fits room h c'" using fits_child [OF Suc.prems(1) i e] .
    have "(( pfx @ [index_char (idxn c)]) @ s', total_freq (h b)) \<in>
            set (subtree_words room h c' (pfx @ [index_char (idxn c)]))"
      using Suc.IH [OF f d Suc.prems(3)] .
    then have m: "(pfx @ s, total_freq (h b)) \<in> set (subtree_words room h c' (pfx @ [index_char (idxn c)]))"
      using Cons index_char_idxn [OF okc] by simp
    show ?thesis unfolding in_subtree_words_Suc using i e m by blast
  qed
qed

subsection \<open>The listing is in lexicographic order\<close>

lemma sorted_wrt_concat_map:
  assumes "sorted_wrt (<) (js :: nat list)"
    and "\<And>i. i \<in> set js \<Longrightarrow> sorted_wrt R (B i)"
    and "\<And>i j x y. i \<in> set js \<Longrightarrow> j \<in> set js \<Longrightarrow> i < j \<Longrightarrow> x \<in> set (B i) \<Longrightarrow> y \<in> set (B j) \<Longrightarrow> R x y"
  shows "sorted_wrt R (concat (map B js))"
  using assms
proof (induction js)
  case Nil
  show ?case by simp
next
  case (Cons i js)
  have rest: "sorted_wrt R (concat (map B js))"
  proof (rule Cons.IH)
    show "sorted_wrt (<) js" using Cons.prems(1) by simp
    show "\<And>i. i \<in> set js \<Longrightarrow> sorted_wrt R (B i)" using Cons.prems(2) by simp
    fix i' j x y
    assume "i' \<in> set js" "j \<in> set js" "i' < j" "x \<in> set (B i')" "y \<in> set (B j)"
    then show "R x y" using Cons.prems(3) [of i' j x y] by simp
  qed
  have cross: "\<forall>x\<in>set (B i). \<forall>y\<in>set (concat (map B js)). R x y"
  proof (intro ballI)
    fix x y assume x: "x \<in> set (B i)" and "y \<in> set (concat (map B js))"
    then obtain j where j: "j \<in> set js" "y \<in> set (B j)" by auto
    then have "i < j" using Cons.prems(1) by simp
    then show "R x y" using Cons.prems(3) [of i j x y] x j by simp
  qed
  show ?case using rest cross Cons.prems(2) by (simp add: sorted_wrt_append)
qed

lemma string_less_extend: "pfx < pfx @ c # s"
  unfolding list_less_def by (rule lexord_append_rightI) simp

lemma string_less_branch: "c < d \<Longrightarrow> pfx @ c # s < pfx @ d # t"
  unfolding list_less_def by (rule lexord_append_left_rightI) simp

lemma subtree_words_sorted:
  "sorted_wrt (\<lambda>x y. fst x < fst y) (subtree_words room h a pfx)"
proof (induction room arbitrary: a pfx)
  case 0
  show ?case by simp
next
  case (Suc room)
  define B where "B = (\<lambda>i. case children (h a) i of
                          None \<Rightarrow> []
                        | Some c \<Rightarrow> subtree_words room h c (pfx @ [index_char i]))"
  have form: "\<And>i x. i < ALPHABET_SIZE \<Longrightarrow> x \<in> set (B i) \<Longrightarrow> \<exists>s. fst x = pfx @ index_char i # s"
  proof -
    fix i x assume "i < ALPHABET_SIZE" and x: "x \<in> set (B i)"
    then obtain c where c: "children (h a) i = Some c" "x \<in> set (subtree_words room h c (pfx @ [index_char i]))"
      unfolding B_def by (cases "children (h a) i") auto
    obtain w f where wf: "x = (w, f)" by (cases x)
    from subtree_words_sound [of w f room h c "pfx @ [index_char i]"] c(2) wf
    obtain s where "w = (pfx @ [index_char i]) @ s" by blast
    then show "\<exists>s. fst x = pfx @ index_char i # s" using wf by simp
  qed
  have blocks: "sorted_wrt (\<lambda>x y. fst x < fst y) (concat (map B [0..<ALPHABET_SIZE]))"
  proof (rule sorted_wrt_concat_map)
    show "sorted_wrt (<) [0..<ALPHABET_SIZE]" by (rule sorted_wrt_upt)
  next
    fix i assume "i \<in> set [0..<ALPHABET_SIZE]"
    show "sorted_wrt (\<lambda>x y. fst x < fst y) (B i)"
      using Suc.IH by (simp add: B_def split: option.split)
  next
    fix i j x y
    assume "i \<in> set [0..<ALPHABET_SIZE]" "j \<in> set [0..<ALPHABET_SIZE]" "i < j"
      "x \<in> set (B i)" "y \<in> set (B j)"
    then have ij: "i < ALPHABET_SIZE" "j < ALPHABET_SIZE" by simp_all
    from form [OF ij(1) \<open>x \<in> set (B i)\<close>] form [OF ij(2) \<open>y \<in> set (B j)\<close>]
    obtain s t where "fst x = pfx @ index_char i # s" "fst y = pfx @ index_char j # t" by blast
    then show "fst x < fst y"
      using string_less_branch [OF index_char_less [OF \<open>i < j\<close> ij(2)]] by simp
  qed
  have first: "\<forall>y\<in>set (concat (map B [0..<ALPHABET_SIZE])). pfx < fst y"
  proof
    fix y assume "y \<in> set (concat (map B [0..<ALPHABET_SIZE]))"
    then obtain i where "i < ALPHABET_SIZE" "y \<in> set (B i)" by auto
    from form [OF this] obtain s where "fst y = pfx @ index_char i # s" by blast
    then show "pfx < fst y" using string_less_extend by simp
  qed
  have "subtree_words (Suc room) h a pfx =
      (if is_end (h a) then [(pfx, total_freq (h a))] else []) @ concat (map B [0..<ALPHABET_SIZE])"
    unfolding B_def by simp
  then show ?case using blocks first by (simp add: sorted_wrt_append del: upt_Suc)
qed

subsection \<open>Reachable engines\<close>

lemma engine_ok_fits:
  assumes "engine_ok e"
    and "trie_descend (trie_nodes e) (trie_root e) np = Some cur"
  shows "fits (MAX_WORD_LEN - length np) (trie_nodes e) cur"
proof -
  from assms(1) obtain path where
    edges: "edges_ok (trie_nodes e) (node_count e) (trie_root e) path" and
    depth: "\<forall>a<node_count e. length (path a) < MAX_WORD_LEN"
    unfolding engine_ok_def trie_ok_def by blast
  have r: "trie_root e < node_count e" "path (trie_root e) = []"
    using edges_ok_root [OF edges] by simp_all
  from trie_descend_path [OF edges r(1) assms(2)]
  have cur: "cur < node_count e" "path cur = map idxn np" using r(2) by simp_all
  show ?thesis
    unfolding fits_def
  proof (intro allI impI)
    fix s b assume "trie_descend (trie_nodes e) cur s = Some b"
    from trie_descend_path [OF edges cur(1) this]
    have "b < node_count e" "path b = path cur @ map idxn s" by simp_all
    then have "length np + length s < MAX_WORD_LEN" using depth cur(2) by fastforce
    then show "length s < MAX_WORD_LEN - length np" by simp
  qed
qed


subsection \<open>The answer to a prefix query that fits the buffer\<close>

lemma prefix_descend_split:
  assumes "prefix np w" and "trie_descend h r w = Some a"
  shows "\<exists>cur s. w = np @ s \<and> trie_descend h r np = Some cur \<and> trie_descend h cur s = Some a"
proof -
  from assms(1) obtain s where w: "w = np @ s" by (auto simp: prefix_def)
  then have "(case trie_descend h r np of None \<Rightarrow> None | Some b \<Rightarrow> trie_descend h b s) = Some a"
    using assms(2) by (simp add: trie_descend_append)
  then obtain cur where "trie_descend h r np = Some cur" "trie_descend h cur s = Some a"
    by (cases "trie_descend h r np") simp_all
  then show ?thesis using w by blast
qed

lemma prefix_search_fitting_prefix:
  assumes "reachable e" and "length p < MAX_WORD_LEN - 1"
  shows "\<exists>r r'. output_prefix_result e p = Inr r \<and> search_prefix e p = Inr r' \<and>
           pr_found r' = pr_found r \<and> pr_words r = take MAX_RESULTS (pr_words r') \<and>
           (\<forall>(w, f)\<in>set (pr_words r).
              prefix (normalize_word p) w \<and>
              (\<exists>a. hash_search e w = Some a \<and> f = total_freq (trie_nodes e a))) \<and>
           length (pr_words r) \<le> MAX_RESULTS \<and>
           sorted_wrt (<) (map fst (pr_words r)) \<and>
           (length (pr_words r) < MAX_RESULTS \<longrightarrow>
              (\<forall>w a. hash_search e w = Some a \<longrightarrow> prefix (normalize_word p) w \<longrightarrow>
                 (w, total_freq (trie_nodes e a)) \<in> set (pr_words r)))"
proof -
  define np where "np = normalize_word p"
  define h where "h = trie_nodes e"
  define rt where "rt = trie_root e"
  have ok: "engine_ok e" using assms(1) by (rule reachable_engine_ok)
  have nq: "normalize_query p = Inr np" using assms(2) by (simp add: normalize_query_fits np_def)
  have ht: "\<And>w. hash_search e w = trie_search h rt w"
    using ok unfolding engine_ok_def h_def rt_def by blast
  show ?thesis
  proof (cases "trie_descend h rt np")
    case None
    have r: "output_prefix_result e p = Inr \<lparr>pr_found = False, pr_words = []\<rparr>"
      using nq None by (simp add: output_prefix_result_def h_def rt_def)
    have r': "search_prefix e p = Inr \<lparr>pr_found = False, pr_words = []\<rparr>"
      using nq None by (simp add: search_prefix_def h_def rt_def)
    have none: "\<forall>w a. hash_search e w = Some a \<longrightarrow> prefix np w \<longrightarrow>
                 (w, total_freq (trie_nodes e a)) \<in> set []"
    proof (intro allI impI)
      fix w a assume "hash_search e w = Some a" "prefix np w"
      then have "trie_descend h rt w = Some a" using ht by (simp add: trie_search_Some)
      from prefix_descend_split [OF \<open>prefix np w\<close> this] None
      show "(w, total_freq (trie_nodes e a)) \<in> set []" by auto
    qed
    show ?thesis
      unfolding r r' np_def [symmetric] using none by simp
  next
    case (Some cur)
    define W where "W = subtree_words (MAX_WORD_LEN - length np) h cur np"
    have f: "fits (MAX_WORD_LEN - length np) h cur"
      using engine_ok_fits [OF ok] Some unfolding h_def rt_def by blast
    have c: "collect_prefix_words (MAX_WORD_LEN - length np) h cur np [] = Inr (take MAX_RESULTS W)"
      using collect_prefix_words_listing [OF f, of "[]" np] by (simp add: W_def)
    have u: "trie_prefix_helper (MAX_WORD_LEN - length np) h cur np [] = Inr W"
      using trie_prefix_helper_listing [OF f, of np "[]"] by (simp add: W_def)
    have r: "output_prefix_result e p = Inr \<lparr>pr_found = True, pr_words = take MAX_RESULTS W\<rparr>"
      using nq Some c by (simp add: output_prefix_result_def h_def rt_def)
    have r': "search_prefix e p = Inr \<lparr>pr_found = True, pr_words = W\<rparr>"
      using nq Some u by (simp add: search_prefix_def h_def rt_def)
    have sound: "\<forall>(w, f)\<in>set (take MAX_RESULTS W).
              prefix np w \<and> (\<exists>a. hash_search e w = Some a \<and> f = total_freq (trie_nodes e a))"
    proof (intro ballI)
      fix x assume "x \<in> set (take MAX_RESULTS W)"
      then have x: "x \<in> set W" by (rule in_set_takeD)
      obtain w fr where wf: "x = (w, fr)" by (cases x)
      from subtree_words_sound [of w fr "MAX_WORD_LEN - length np" h cur np] x wf
      obtain s b where sb: "w = np @ s" "trie_descend h cur s = Some b" "is_end (h b)"
        "fr = total_freq (h b)" unfolding W_def by blast
      have "trie_descend h rt w = Some b" using Some sb(1,2) by (simp add: trie_descend_append)
      then have "hash_search e w = Some b" using ht sb(3) by (simp add: trie_search_Some)
      then show "case x of (w, f) \<Rightarrow>
          prefix np w \<and> (\<exists>a. hash_search e w = Some a \<and> f = total_freq (trie_nodes e a))"
        using wf sb(1,4) by (simp add: h_def)
    qed
    have sorted: "sorted_wrt (<) (map fst (take MAX_RESULTS W))"
    proof -
      have "sorted_wrt (\<lambda>x y. fst x < fst y) W" unfolding W_def by (rule subtree_words_sorted)
      then have "sorted_wrt (\<lambda>x y. fst x < fst y) (take MAX_RESULTS W)" by (rule sorted_wrt_take)
      then show ?thesis by (simp add: sorted_wrt_map)
    qed
    have complete: "length (take MAX_RESULTS W) < MAX_RESULTS \<longrightarrow>
              (\<forall>w a. hash_search e w = Some a \<longrightarrow> prefix np w \<longrightarrow>
                 (w, total_freq (trie_nodes e a)) \<in> set (take MAX_RESULTS W))"
    proof (intro allI impI)
      fix w a
      assume short: "length (take MAX_RESULTS W) < MAX_RESULTS"
        and hs: "hash_search e w = Some a" and pre: "prefix np w"
      have all: "take MAX_RESULTS W = W" using short by simp
      have d: "trie_descend h rt w = Some a" and en: "is_end (h a)"
        using hs ht by (simp_all add: trie_search_Some)
      from prefix_descend_split [OF pre d] Some obtain s where
        s: "w = np @ s" "trie_descend h cur s = Some a" by auto
      have "(np @ s, total_freq (h a)) \<in> set W"
        unfolding W_def using f s(2) en by (rule subtree_words_complete)
      then show "(w, total_freq (trie_nodes e a)) \<in> set (take MAX_RESULTS W)"
        using all s(1) by (simp add: h_def)
    qed
    show ?thesis
      unfolding r r' np_def [symmetric] using sound sorted complete by simp
  qed
qed

text \<open>
  The cap is an early exit: once 100 results are collected, \<^verbatim>\<open>collect_prefix_words\<close>
  returns at once and the loop over the children stops.
\<close>

lemma collect_prefix_words_full:
  "MAX_RESULTS \<le> length results \<Longrightarrow> collect_prefix_words room h node pfx results = Inr results"
  by (cases room) simp_all

lemma scan_children_full:
  "MAX_RESULTS \<le> length res \<Longrightarrow>
     scan_children visit (\<lambda>res. length res < MAX_RESULTS) ch js res = Inr res"
  by (cases js) simp_all

text \<open>
  C4 fails on the code for a prefix of 99 bytes or more: \<^verbatim>\<open>output_prefix_result\<close>
  copies it with \<^verbatim>\<open>strncpy(normalized, prefix, MAX_WORD_LEN - 1)\<close> and stores no NUL
  behind it. After indexing the text \<open>ab ab cd\<close>, the word \<open>ab\<close> starts with the
  normalized form \<open>a\<close> of the prefix of one \<open>a\<close> and 98 exclamation marks, but the query
  faults and lists nothing; the prefix \<open>a\<close> itself lists it.
\<close>

theorem prefix_search_overlong_prefix_faults:
  "output_prefix_result (fst (index_text create_search_engine ''d'' ''ab ab cd''))
     (CHR ''a'' # replicate 98 (CHR ''!'')) = Inl UnterminatedString \<and>
   normalize_word (CHR ''a'' # replicate 98 (CHR ''!'')) = ''a'' \<and>
   hash_search (fst (index_text create_search_engine ''d'' ''ab ab cd'')) ''ab'' = Some 2 \<and>
   prefix ''a'' ''ab'' \<and>
   output_prefix_result (fst (index_text create_search_engine ''d'' ''ab ab cd'')) ''a'' =
     Inr \<lparr>pr_found = True, pr_words = [(''ab'', 2)]\<rparr>"
  by code_simp

end
